theory Spec2Isabelle
  imports Main "HOL-Library.Word" "HOL-Library.List_Lexorder" "HOL-Library.Char_ord"
begin

section \<open>The browsable hierarchy (external collaborators of RBrowserData)\<close>

text \<open>
  \<^verbatim>\<open>Browsable::RElementPath_t\<close> is a \<^verbatim>\<open>std::vector<std::string>\<close>.
\<close>

type_synonym RElementPath_t = "string list"

text \<open>
  \<^verbatim>\<open>Browsable::RItem\<close>: the display snapshot of one child. RBrowserData.cxx reads it
  through \<^verbatim>\<open>GetName()\<close>, \<^verbatim>\<open>IsFolder()\<close>, \<^verbatim>\<open>IsHidden()\<close> and \<^verbatim>\<open>Compare()\<close>
  only; \<^verbatim>\<open>Compare\<close> is a parameter of the model (see \<open>externals\<close>).
\<close>

datatype RItem = RItem (GetName: string) (IsFolder: bool) (IsHidden: bool)

text \<open>
  \<^verbatim>\<open>Browsable::RElement\<close> and \<^verbatim>\<open>Browsable::RLevelIter\<close>. An element either has no
  child iterator (\<^verbatim>\<open>GetChildsIter()\<close> returns a null pointer) or an iterator over its
  children; the iterator is the list of the positions it visits. At each position the
  iterator has a name, \<^verbatim>\<open>GetElement()\<close> gives the child element or a null pointer, and
  \<^verbatim>\<open>CreateItem()\<close> gives the child's item. Elements are values here: two handles to
  the same node of an unchanged tree are equal, whichever call created them.
\<close>

datatype RElement = RElement (GetChildsIter: "RLevel list option")
  and RLevel = RLevel (GetItemName: string) (GetElement: "RElement option") (CreateItem: RItem)

text \<open>
  Modelled from the spec: \<^verbatim>\<open>RLevelIter::Find\<close> is declared in RLevelIter.hxx, which is
  not among the sources. The spec (6, ChildIterator capability): \<^verbatim>\<open>findByName\<close>
  positions the cursor on an exact-name match or returns false. The iterator is
  forward-only, so the match is the first one in iteration order.
\<close>

fun Find :: "RLevel list \<Rightarrow> string \<Rightarrow> RLevel option" where
  "Find [] name = None"
| "Find (c # rest) name = (if GetItemName c = name then Some c else Find rest name)"

text \<open>
  Modelled from the spec: \<^verbatim>\<open>RElement::ComparePaths\<close> is declared in RElement.hxx, which
  is not among the sources. The spec (4.2): compare component-wise from index 0; the match
  length is the count of leading components that agree.
\<close>

fun ComparePaths :: "RElementPath_t \<Rightarrow> RElementPath_t \<Rightarrow> nat" where
  "ComparePaths (x # xs) (y # ys) = (if x = y then Suc (ComparePaths xs ys) else 0)"
| "ComparePaths _ _ = 0"

text \<open>
  What the code takes from outside the repository and from the virtual interface of the
  items: \<^verbatim>\<open>std::regex\<close> (whether the constructor accepts a pattern, and
  \<^verbatim>\<open>std::regex_match(name, expr)\<close>), \<^verbatim>\<open>RItem::Compare(b, method)\<close>, and \<^verbatim>\<open>std::sort\<close>
  with a given comparator. They are parameters: every theorem below holds for all of them.
\<close>

record externals =
  regex_valid :: "string \<Rightarrow> bool"
  regex_match :: "string \<Rightarrow> string \<Rightarrow> bool"
  Compare :: "RItem \<Rightarrow> RItem \<Rightarrow> string \<Rightarrow> bool"
  std_sort :: "(RItem \<Rightarrow> RItem \<Rightarrow> bool) \<Rightarrow> RItem list \<Rightarrow> RItem list"

text \<open>
  The ways a call leaves other than by returning: a null pointer is dereferenced, the
  \<^verbatim>\<open>std::regex\<close> constructor throws \<^verbatim>\<open>std::regex_error\<close>, or a signed addition
  overflows (undefined behaviour in C++).
\<close>

datatype failure = NullDereference | RegexError | SignedOverflow

section \<open>The state of RBrowserData\<close>

text \<open>
  The members of the class, as RBrowserData.cxx uses them. \<^verbatim>\<open>fCache\<close> is written with
  \<^verbatim>\<open>fCache[subpath] = elem\<close> and read with a range-for over its entries: it is a
  \<^verbatim>\<open>std::map\<close> from paths to elements, which iterates in ascending key order
  (\<^verbatim>\<open>std::less\<close> on \<^verbatim>\<open>std::vector<std::string>\<close>, the lexicographic order). The model
  keeps the entries as a list in that order. Only non-null elements are ever stored.
  \<^verbatim>\<open>fLastSortedItems\<close> holds pointers into \<^verbatim>\<open>fLastItems\<close>; items are immutable, so the
  model holds the items themselves.
\<close>

record RBrowserData =
  fTopElement :: "RElement option"
  fWorkingPath :: RElementPath_t
  fCache :: "(RElementPath_t \<times> RElement) list"
  fLastPath :: RElementPath_t
  fLastElement :: "RElement option"
  fLastItems :: "RItem list"
  fLastAllChilds :: bool
  fLastSortedItems :: "RItem list"
  fLastSortMethod :: string
  fLastSortReverse :: bool

text \<open>
  \<^verbatim>\<open>RBrowserRequest\<close> and \<^verbatim>\<open>RBrowserReply\<close> (the fields are prefixed, since both have
  \<^verbatim>\<open>path\<close> and \<^verbatim>\<open>first\<close>). \<^verbatim>\<open>first\<close> and \<^verbatim>\<open>number\<close> are C++ \<^verbatim>\<open>int\<close>: the code
  compares and adds them with its \<^verbatim>\<open>int id\<close>. They are 32-bit words read as signed
  (\<open>sint\<close>). \<^verbatim>\<open>nchilds\<close> receives \<^verbatim>\<open>id\<close>, a count of items, held as an integer.
\<close>

record RBrowserRequest =
  req_path :: string
  req_first :: "32 word"
  req_number :: "32 word"
  req_sort :: string
  req_reverse :: bool
  req_hidden :: bool
  req_regex :: string

record RBrowserReply =
  reply_path :: string
  reply_first :: "32 word"
  reply_nchilds :: int
  reply_nodes :: "RItem list"

section \<open>Setting the top element and the working path\<close>

definition ResetLastRequest :: "RBrowserData \<Rightarrow> RBrowserData" where
  "ResetLastRequest s =
     s\<lparr>fLastAllChilds := False, fLastSortedItems := [], fLastSortMethod := [],
       fLastItems := [], fLastPath := [], fLastElement := None\<rparr>"

definition SetWorkingPath :: "RElementPath_t \<Rightarrow> RBrowserData \<Rightarrow> RBrowserData" where
  "SetWorkingPath path s = ResetLastRequest (s\<lparr>fWorkingPath := path\<rparr>)"

subsection \<open>DecomposePath\<close>

text \<open>\<^verbatim>\<open>strpath.find(slash, previous)\<close>: the first index at or after \<open>previous\<close> holding a slash.\<close>

definition find_slash :: "string \<Rightarrow> nat \<Rightarrow> nat option" where
  "find_slash strpath previous =
     (let n = length (takeWhile (\<lambda>c. c \<noteq> CHR ''/'') (drop previous strpath))
      in if previous + n < length strpath then Some (previous + n) else None)"

definition substr :: "string \<Rightarrow> nat \<Rightarrow> nat \<Rightarrow> string" where
  "substr s pos n = take n (drop pos s)"

function decompose_loop :: "string \<Rightarrow> nat \<Rightarrow> RElementPath_t \<Rightarrow> nat \<times> RElementPath_t" where
  "decompose_loop strpath previous arr =
     (case find_slash strpath previous of
        None \<Rightarrow> (previous, arr)
      | Some current \<Rightarrow>
          decompose_loop strpath (current + 1)
            (if current > previous then arr @ [substr strpath previous (current - previous)]
             else arr))"
  by pat_completeness auto
termination
  by (relation "measure (\<lambda>(s, p, a). length s - p)")
     (auto simp: find_slash_def Let_def split: if_splits)

declare decompose_loop.simps [simp del]

definition DecomposePath :: "string \<Rightarrow> bool \<Rightarrow> RBrowserData \<Rightarrow> RElementPath_t" where
  "DecomposePath strpath relative_to_work_element s =
     (let arr = (if relative_to_work_element then fWorkingPath s else [])
      in if strpath = [] then arr
         else
           (let previous = (if strpath ! 0 = CHR ''/'' then 1 else 0);
                (previous', arr') = decompose_loop strpath previous arr
            in if previous' < length strpath then arr' @ [drop previous' strpath] else arr'))"

definition SetWorkingDirectory :: "string \<Rightarrow> RBrowserData \<Rightarrow> RBrowserData" where
  "SetWorkingDirectory strpath s = SetWorkingPath (DecomposePath strpath False s) s"

definition SetTopElement :: "RElement option \<Rightarrow> RBrowserData \<Rightarrow> RBrowserData" where
  "SetTopElement elem s = SetWorkingDirectory [] (s\<lparr>fTopElement := elem\<rparr>)"

section \<open>GetSubElement: resolution through the cache\<close>

text \<open>\<^verbatim>\<open>fCache[subpath] = elem\<close> on a \<^verbatim>\<open>std::map\<close>: replace the entry of the key, or insert
  it at its place in the key order.\<close>

fun cache_store ::
  "RElementPath_t \<Rightarrow> RElement \<Rightarrow> (RElementPath_t \<times> RElement) list \<Rightarrow> (RElementPath_t \<times> RElement) list"
where
  "cache_store k v [] = [(k, v)]"
| "cache_store k v ((k', v') # rest) =
     (if k = k' then (k, v) # rest
      else if k < k' then (k, v) # (k', v') # rest
      else (k', v') # cache_store k v rest)"

text \<open>The scan for the best entry: \<open>pos\<close> and \<open>elem\<close> change only on a strictly longer match.\<close>

fun scan_cache ::
  "RElementPath_t \<Rightarrow> (RElementPath_t \<times> RElement) list \<Rightarrow> nat \<times> RElement option \<Rightarrow> nat \<times> RElement option"
where
  "scan_cache path [] acc = acc"
| "scan_cache path (entry # rest) (pos, elem) =
     (let comp = ComparePaths path (fst entry)
      in if comp > pos then scan_cache path rest (comp, Some (snd entry))
         else scan_cache path rest (pos, elem))"

text \<open>The while loop. It returns the result of GetSubElement (a null pointer is \<open>None\<close>) and
  the cache it leaves.\<close>

function resolve_loop ::
  "RElementPath_t \<Rightarrow> nat \<Rightarrow> RElement option \<Rightarrow> (RElementPath_t \<times> RElement) list
     \<Rightarrow> (failure + RElement option) \<times> (RElementPath_t \<times> RElement) list"
where
  "resolve_loop path pos elem cache =
     (if pos < length path then
        (case elem of
           None \<Rightarrow> (Inl NullDereference, cache)
         | Some e \<Rightarrow>
             (case GetChildsIter e of
                None \<Rightarrow> (Inr None, cache)
              | Some iter \<Rightarrow>
                  (case Find iter (path ! pos) of
                     None \<Rightarrow> (Inr None, cache)
                   | Some c \<Rightarrow>
                       (case GetElement c of
                          None \<Rightarrow> (Inr None, cache)
                        | Some e' \<Rightarrow>
                            resolve_loop path (pos + 1) (Some e')
                              (cache_store (take (pos + 1) path) e' cache)))))
      else (Inr elem, cache))"
  by pat_completeness auto
termination
  by (relation "measure (\<lambda>(path, pos, elem, cache). length path - pos)") auto

declare resolve_loop.simps [simp del]

definition GetSubElement ::
  "RElementPath_t \<Rightarrow> RBrowserData \<Rightarrow> (failure + RElement option) \<times> RBrowserData"
where
  "GetSubElement path s =
     (if path = [] then (Inr (fTopElement s), s)
      else
        (let (pos, elem) = scan_cache path (fCache s) (0, fTopElement s);
             (res, cache') = resolve_loop path pos elem (fCache s)
         in (res, s\<lparr>fCache := cache'\<rparr>)))"

text \<open>\<^verbatim>\<open>RBrowserData::GetElement\<close> (the name \<open>GetElement\<close> is the iterator's here).\<close>

definition RBrowserData_GetElement ::
  "string \<Rightarrow> RBrowserData \<Rightarrow> (failure + RElement option) \<times> RBrowserData"
where
  "RBrowserData_GetElement str s = GetSubElement (DecomposePath str True s) s"

definition GetElementFromTop ::
  "RElementPath_t \<Rightarrow> RBrowserData \<Rightarrow> (failure + RElement option) \<times> RBrowserData"
where
  "GetElementFromTop path s = GetSubElement path s"

section \<open>ProcessBrowserRequest\<close>

subsection \<open>Lines 112-123: the element of the request\<close>

text \<open>The element is resolved first; the memo is reset only when the resolution gave an
  element. The result is \<open>Inr False\<close> where the code returns false.\<close>

definition locate_element ::
  "RElementPath_t \<Rightarrow> RBrowserData \<Rightarrow> (failure + bool) \<times> RBrowserData"
where
  "locate_element path s =
     (if path \<noteq> fLastPath s \<or> fLastElement s = None then
        (case GetSubElement path s of
           (Inl err, s') \<Rightarrow> (Inl err, s')
         | (Inr None, s') \<Rightarrow> (Inr False, s')
         | (Inr (Some elem), s') \<Rightarrow>
             (Inr True, (ResetLastRequest s')\<lparr>fLastPath := path, fLastElement := Some elem\<rparr>))
      else (Inr True, s))"

subsection \<open>Lines 126-142: the raw child listing\<close>

text \<open>The loop \<^verbatim>\<open>while (iter->Next() && fLastAllChilds)\<close>: the iterator is advanced
  first, then the flag is read; \<^verbatim>\<open>id++ > 10000\<close> compares the value before the
  increment.\<close>

fun collect_items :: "RLevel list \<Rightarrow> RItem list \<Rightarrow> int \<Rightarrow> bool \<Rightarrow> RItem list \<times> bool" where
  "collect_items [] items idx allchilds = (items, allchilds)"
| "collect_items (c # rest) items idx allchilds =
     (if allchilds then
        collect_items rest (items @ [CreateItem c]) (idx + 1)
          (if idx > 10000 then False else allchilds)
      else (items, allchilds))"

definition list_childs :: "RBrowserData \<Rightarrow> (failure + bool) \<times> RBrowserData" where
  "list_childs s =
     (if fLastItems s = [] then
        (case fLastElement s of
           None \<Rightarrow> (Inl NullDereference, s)
         | Some e \<Rightarrow>
             (case GetChildsIter e of
                None \<Rightarrow> (Inr False, s)
              | Some iter \<Rightarrow>
                  (let (items, allchilds) = collect_items iter (fLastItems s) 0 True
                   in (Inr True,
                       s\<lparr>fLastAllChilds := allchilds, fLastItems := items,
                         fLastSortedItems := [], fLastSortMethod := []\<rparr>))))
      else (Inr True, s))"

subsection \<open>Lines 145-173: the sorted array\<close>

definition order_items :: "externals \<Rightarrow> string \<Rightarrow> bool \<Rightarrow> RItem list \<Rightarrow> RItem list" where
  "order_items ext sort_method reverse_order items =
     (let sorted =
        (if sort_method = [] then
           filter IsFolder items @ filter (\<lambda>item. \<not> IsFolder item) items
         else if sort_method \<noteq> ''unsorted'' then
           std_sort ext (\<lambda>a b. Compare ext a b sort_method) items
         else items)
      in if reverse_order then rev sorted else sorted)"

definition sort_childs :: "externals \<Rightarrow> RBrowserRequest \<Rightarrow> RBrowserData \<Rightarrow> RBrowserData" where
  "sort_childs ext request s =
     (if length (fLastSortedItems s) \<noteq> length (fLastItems s) \<or>
         fLastSortMethod s \<noteq> req_sort request \<or>
         fLastSortReverse s \<noteq> req_reverse request
      then
        s\<lparr>fLastSortedItems := order_items ext (req_sort request) (req_reverse request) (fLastItems s),
          fLastSortMethod := req_sort request,
          fLastSortReverse := req_reverse request\<rparr>
      else s)"

subsection \<open>Lines 175-196: filtering and the page\<close>

text \<open>\<^verbatim>\<open>(id >= request.first) && ((request.number == 0) || (id < request.first + request.number))\<close>,
  evaluated left to right with short-circuit. The sum is an \<^verbatim>\<open>int\<close> addition: outside
  the range of \<^verbatim>\<open>int\<close> its behaviour is undefined, which the model reports.\<close>

definition in_page :: "RBrowserRequest \<Rightarrow> int \<Rightarrow> failure + bool" where
  "in_page request idx =
     (if idx \<ge> sint (req_first request) then
        (if req_number request = 0 then Inr True
         else
           (let sum = sint (req_first request) + sint (req_number request)
            in if sum < - (2 ^ 31) \<or> 2 ^ 31 \<le> sum then Inl SignedOverflow
               else Inr (idx < sum)))
      else Inr False)"

fun page_loop ::
  "externals \<Rightarrow> RBrowserRequest \<Rightarrow> RItem list \<Rightarrow> int \<Rightarrow> RItem list \<Rightarrow> failure + (int \<times> RItem list)"
where
  "page_loop ext request [] idx nodes = Inr (idx, nodes)"
| "page_loop ext request (item # rest) idx nodes =
     (if \<not> req_hidden request \<and> IsHidden item then page_loop ext request rest idx nodes
      else if req_regex request \<noteq> [] \<and> \<not> IsFolder item \<and>
              \<not> regex_match ext (GetName item) (req_regex request)
           then page_loop ext request rest idx nodes
      else
        (case in_page request idx of
           Inl err \<Rightarrow> Inl err
         | Inr True \<Rightarrow> page_loop ext request rest (idx + 1) (nodes @ [item])
         | Inr False \<Rightarrow> page_loop ext request rest (idx + 1) nodes))"

definition fill_reply ::
  "externals \<Rightarrow> RBrowserRequest \<Rightarrow> RBrowserReply \<Rightarrow> RBrowserData \<Rightarrow> (failure + bool) \<times> RBrowserReply"
where
  "fill_reply ext request reply s =
     (if \<not> regex_valid ext (req_regex request) then (Inl RegexError, reply)
      else
        (case page_loop ext request (fLastSortedItems s) 0 (reply_nodes reply) of
           Inl err \<Rightarrow> (Inl err, reply)
         | Inr (idx, nodes) \<Rightarrow>
             (Inr True,
              reply\<lparr>reply_nodes := nodes, reply_first := req_first request, reply_nchilds := idx\<rparr>)))"

subsection \<open>The whole request\<close>

definition ProcessBrowserRequest ::
  "externals \<Rightarrow> RBrowserRequest \<Rightarrow> RBrowserReply \<Rightarrow> RBrowserData
     \<Rightarrow> (failure + bool) \<times> RBrowserData \<times> RBrowserReply"
where
  "ProcessBrowserRequest ext request reply s =
     (let path = DecomposePath (req_path request) True s
      in case locate_element path s of
           (Inl err, s1) \<Rightarrow> (Inl err, s1, reply)
         | (Inr False, s1) \<Rightarrow> (Inr False, s1, reply)
         | (Inr True, s1) \<Rightarrow>
             (case list_childs s1 of
                (Inl err, s2) \<Rightarrow> (Inl err, s2, reply)
              | (Inr False, s2) \<Rightarrow> (Inr False, s2, reply)
              | (Inr True, s2) \<Rightarrow>
                  (let s3 = sort_childs ext request s2;
                       (res, reply') = fill_reply ext request reply s3
                   in (res, s3, reply'))))"

text \<open>ProcessRequest serialises the reply to JSON whatever ProcessBrowserRequest returned;
  the model returns the reply itself. An exception leaves no reply.\<close>

definition ProcessRequest ::
  "externals \<Rightarrow> RBrowserRequest \<Rightarrow> RBrowserData \<Rightarrow> (failure + RBrowserReply) \<times> RBrowserData"
where
  "ProcessRequest ext request s =
     (let reply = \<lparr>reply_path = req_path request, reply_first = 0, reply_nchilds = 0,
                    reply_nodes = []\<rparr>
      in case ProcessBrowserRequest ext request reply s of
           (Inl err, s', reply') \<Rightarrow> (Inl err, s')
         | (Inr ok, s', reply') \<Rightarrow> (Inr reply', s'))"

section \<open>Notions used to state the properties\<close>

subsection \<open>Resolution without the cache\<close>

text \<open>Following the components of a path from an element, as the loop of GetSubElement
  does, with no cache.\<close>

fun walk :: "RElement option \<Rightarrow> RElementPath_t \<Rightarrow> failure + RElement option" where
  "walk elem [] = Inr elem"
| "walk elem (name # names) =
     (case elem of
        None \<Rightarrow> Inl NullDereference
      | Some e \<Rightarrow>
          (case GetChildsIter e of
             None \<Rightarrow> Inr None
           | Some iter \<Rightarrow>
               (case Find iter name of
                  None \<Rightarrow> Inr None
                | Some c \<Rightarrow>
                    (case GetElement c of
                       None \<Rightarrow> Inr None
                     | Some e' \<Rightarrow> walk (Some e') names))))"

text \<open>The shape of the cache that GetSubElement builds: the keys ascend strictly (the
  \<^verbatim>\<open>std::map\<close> order), no key is empty, and with a key the cache holds every shorter
  non-empty prefix of it.\<close>

definition cache_wf :: "(RElementPath_t \<times> RElement) list \<Rightarrow> bool" where
  "cache_wf cache \<longleftrightarrow>
     sorted_wrt (<) (map fst cache) \<and>
     (\<forall>k \<in> fst ` set cache. k \<noteq> [] \<and> (\<forall>n \<in> {1..<length k}. take n k \<in> fst ` set cache))"

definition cache_correct :: "RElement option \<Rightarrow> (RElementPath_t \<times> RElement) list \<Rightarrow> bool" where
  "cache_correct root cache \<longleftrightarrow> (\<forall>entry \<in> set cache. walk root (fst entry) = Inr (Some (snd entry)))"

text \<open>The resolution-cache invariant: every entry holds the element that resolving its key
  against an empty cache yields.\<close>

definition cache_sound :: "RBrowserData \<Rightarrow> bool" where
  "cache_sound s \<longleftrightarrow>
     cache_wf (fCache s) \<and>
     (\<forall>entry \<in> set (fCache s).
        fst (GetSubElement (fst entry) (s\<lparr>fCache := []\<rparr>)) = Inr (Some (snd entry)))"

text \<open>A start of the loop at position \<open>pos\<close> with element \<open>elem\<close> that agrees with the
  path walked from the root.\<close>

definition good_start ::
  "RElement option \<Rightarrow> RElementPath_t set \<Rightarrow> RElementPath_t \<Rightarrow> nat \<times> RElement option \<Rightarrow> bool"
where
  "good_start root keys path acc \<longleftrightarrow>
     fst acc \<le> length path \<and> walk root (take (fst acc) path) = Inr (snd acc) \<and>
     (fst acc = 0 \<or> snd acc \<noteq> None \<and> take (fst acc) path \<in> keys)"

subsection \<open>The memo\<close>

definition memo_cleared :: "RBrowserData \<Rightarrow> bool" where
  "memo_cleared s \<longleftrightarrow>
     fLastPath s = [] \<and> fLastElement s = None \<and> fLastItems s = [] \<and>
     fLastSortedItems s = [] \<and> fLastSortMethod s = [] \<and> fLastAllChilds s = False"

text \<open>The sorted array, when it has the size of the item list, is the ordering of the
  items by the recorded method and reverse flag.\<close>

definition sorted_consistent :: "externals \<Rightarrow> RBrowserData \<Rightarrow> bool" where
  "sorted_consistent ext s \<longleftrightarrow>
     (length (fLastSortedItems s) = length (fLastItems s) \<longrightarrow>
      fLastSortedItems s = order_items ext (fLastSortMethod s) (fLastSortReverse s) (fLastItems s))"

text \<open>The states a request passes through: after lines 112-123, after lines 126-142 and
  after lines 145-173.\<close>

definition after_locate :: "RBrowserRequest \<Rightarrow> RBrowserData \<Rightarrow> RBrowserData" where
  "after_locate request s = snd (locate_element (DecomposePath (req_path request) True s) s)"

definition after_list :: "RBrowserRequest \<Rightarrow> RBrowserData \<Rightarrow> RBrowserData" where
  "after_list request s = snd (list_childs (after_locate request s))"

definition after_sort :: "externals \<Rightarrow> RBrowserRequest \<Rightarrow> RBrowserData \<Rightarrow> RBrowserData" where
  "after_sort ext request s = sort_childs ext request (after_list request s)"

subsection \<open>Filtering and the page\<close>

text \<open>An item that neither test of the filtering loop skips.\<close>

definition visible :: "externals \<Rightarrow> RBrowserRequest \<Rightarrow> RItem \<Rightarrow> bool" where
  "visible ext request item \<longleftrightarrow>
     (req_hidden request \<or> \<not> IsHidden item) \<and>
     (req_regex request = [] \<or> IsFolder item \<or> regex_match ext (GetName item) (req_regex request))"

text \<open>The window of a request over the visible items, the first of which has index
  \<open>idx\<close>: the items whose index is at least \<open>first\<close> and, unless \<open>number\<close> is 0, below
  \<open>first + number\<close>.\<close>

definition page_of :: "RBrowserRequest \<Rightarrow> int \<Rightarrow> RItem list \<Rightarrow> RItem list" where
  "page_of request idx vis =
     (let lo = nat (sint (req_first request) - idx);
          hi = nat (sint (req_first request) + sint (req_number request) - idx)
      in if req_number request = 0 then drop lo vis else take (hi - lo) (drop lo vis))"

text \<open>\<^verbatim>\<open>request.first + request.number\<close> is representable as an \<^verbatim>\<open>int\<close>.\<close>

definition sum_in_range :: "RBrowserRequest \<Rightarrow> bool" where
  "sum_in_range request \<longleftrightarrow>
     - (2 ^ 31) \<le> sint (req_first request) + sint (req_number request) \<and>
     sint (req_first request) + sint (req_number request) < 2 ^ 31"

section \<open>Sample data\<close>

text \<open>A small hierarchy, a default-constructed RBrowserData, and an instance of the
  parameters, for checking the theorems on concrete inputs. The tree is that of the spec's
  end-to-end scenario, with two levels under \<open>src\<close>:
  \<^verbatim>\<open>.git/ (hidden)   src/lib/util   src/util   a.txt   b.txt\<close>.
  The sample pattern engine rejects the unterminated bracket expression \<open>[\<close> and matches
  a pattern without metacharacters literally; the sample sort is an insertion sort.\<close>

fun insert_by :: "(RItem \<Rightarrow> RItem \<Rightarrow> bool) \<Rightarrow> RItem \<Rightarrow> RItem list \<Rightarrow> RItem list" where
  "insert_by before x [] = [x]"
| "insert_by before x (y # ys) = (if before x y then x # y # ys else y # insert_by before x ys)"

definition insertion_sort :: "(RItem \<Rightarrow> RItem \<Rightarrow> bool) \<Rightarrow> RItem list \<Rightarrow> RItem list" where
  "insertion_sort before items = foldr (insert_by before) items []"

definition sample_externals :: externals where
  "sample_externals =
     \<lparr>regex_valid = (\<lambda>pattern. pattern \<noteq> ''[''),
      regex_match = (\<lambda>name pattern. name = pattern),
      Compare = (\<lambda>a b method. GetName a < GetName b),
      std_sort = insertion_sort\<rparr>"

definition sample_lib :: RElement where
  "sample_lib = RElement (Some [RLevel ''util'' (Some (RElement (Some []))) (RItem ''util'' False False)])"

definition sample_src :: RElement where
  "sample_src =
     RElement (Some [RLevel ''lib'' (Some sample_lib) (RItem ''lib'' True False),
                     RLevel ''util'' (Some (RElement None)) (RItem ''util'' False False)])"

definition sample_top :: RElement where
  "sample_top =
     RElement (Some [RLevel ''.git'' (Some (RElement (Some []))) (RItem ''.git'' True True),
                     RLevel ''src'' (Some sample_src) (RItem ''src'' True False),
                     RLevel ''a.txt'' (Some (RElement None)) (RItem ''a.txt'' False False),
                     RLevel ''b.txt'' (Some (RElement None)) (RItem ''b.txt'' False False)])"

definition initial_state :: RBrowserData where
  "initial_state =
     \<lparr>fTopElement = None, fWorkingPath = [], fCache = [], fLastPath = [], fLastElement = None,
      fLastItems = [], fLastAllChilds = False, fLastSortedItems = [], fLastSortMethod = [],
      fLastSortReverse = False\<rparr>"

definition sample_state :: RBrowserData where
  "sample_state = SetTopElement (Some sample_top) initial_state"

definition sample_request :: "string \<Rightarrow> RBrowserRequest" where
  "sample_request strpath =
     \<lparr>req_path = strpath, req_first = 0, req_number = 0, req_sort = [], req_reverse = False,
      req_hidden = False, req_regex = []\<rparr>"

text \<open>A container whose iterator yields \<open>n\<close> children.\<close>

definition wide_element :: "nat \<Rightarrow> RElement" where
  "wide_element n = RElement (Some (replicate n (RLevel ''f'' None (RItem ''f'' False False))))"

definition empty_reply :: RBrowserReply where
  "empty_reply = \<lparr>reply_path = [], reply_first = 0, reply_nchilds = 0, reply_nodes = []\<rparr>"

text \<open>The sample state after a successful request for \<open>src\<close>: its memo holds the
  listing of \<open>src\<close>.\<close>

definition sample_state_src :: RBrowserData where
  "sample_state_src =
     fst (snd (ProcessBrowserRequest sample_externals (sample_request ''src'') empty_reply sample_state))"

section \<open>The loops in closed form\<close>

lemma collect_items_stopped: "collect_items iter items idx False = (items, False)"
  by (cases iter) simp_all

lemma collect_items_eq:
  "0 \<le> idx \<Longrightarrow> idx \<le> 10001 \<Longrightarrow>
   collect_items iter items idx True =
     (items @ take (nat (10002 - idx)) (map CreateItem iter), int (length iter) < 10002 - idx)"
proof (induction iter arbitrary: items idx)
  case Nil
  then show ?case by simp
next
  case (Cons c rest)
  show ?case
  proof (cases "idx > 10000")
    case True
    with Cons.prems have "idx = 10001" by simp
    then show ?thesis by (simp add: collect_items_stopped)
  next
    case False
    then have step: "collect_items (c # rest) items idx True =
        collect_items rest (items @ [CreateItem c]) (idx + 1) True" by simp
    from False Cons.prems have "0 \<le> idx + 1" "idx + 1 \<le> 10001" by simp_all
    from Cons.IH [OF this, of "items @ [CreateItem c]"] have
      ih: "collect_items rest (items @ [CreateItem c]) (idx + 1) True =
         ((items @ [CreateItem c]) @ take (nat (10002 - (idx + 1))) (map CreateItem rest),
          int (length rest) < 10002 - (idx + 1))" .
    from False Cons.prems have n: "nat (10002 - idx) = Suc (nat (10002 - (idx + 1)))" by simp
    show ?thesis unfolding step ih n by auto
  qed
qed

lemma in_page_eq:
  "req_number request = 0 \<or> sum_in_range request \<Longrightarrow>
   in_page request idx =
     Inr (sint (req_first request) \<le> idx \<and>
          (req_number request = 0 \<or> idx < sint (req_first request) + sint (req_number request)))"
  by (auto simp: in_page_def sum_in_range_def Let_def)

lemma page_of_Nil: "page_of request idx [] = []"
  by (simp add: page_of_def Let_def)

lemma page_of_Cons:
  "page_of request idx (v # vis) =
     (if sint (req_first request) \<le> idx \<and>
         (req_number request = 0 \<or> idx < sint (req_first request) + sint (req_number request))
      then v # page_of request (idx + 1) vis else page_of request (idx + 1) vis)"
proof -
  let ?F = "sint (req_first request)" and ?N = "sint (req_number request)"
  show ?thesis
  proof (cases "?F \<le> idx")
    case True
    then have lo: "nat (?F - idx) = 0" "nat (?F - (idx + 1)) = 0" by simp_all
    show ?thesis
    proof (cases "idx < ?F + ?N")
      case True
      then have "nat (?F + ?N - idx) = Suc (nat (?F + ?N - (idx + 1)))" by simp
      with lo \<open>?F \<le> idx\<close> True show ?thesis by (simp add: page_of_def Let_def)
    next
      case False
      then have "nat (?F + ?N - idx) = 0" "nat (?F + ?N - (idx + 1)) = 0" by simp_all
      with lo \<open>?F \<le> idx\<close> False show ?thesis by (simp add: page_of_def Let_def)
    qed
  next
    case False
    then have lo: "nat (?F - idx) = Suc (nat (?F - (idx + 1)))" by simp
    have "nat (?F + ?N - idx) - Suc (nat (?F - (idx + 1))) =
          nat (?F + ?N - (idx + 1)) - nat (?F - (idx + 1))" by simp
    with lo False show ?thesis by (simp add: page_of_def Let_def)
  qed
qed

lemma case_Inr_bool:
  "(case Inr b of Inl err \<Rightarrow> Inl err | Inr True \<Rightarrow> x | Inr False \<Rightarrow> y) = (if b then x else y)"
  by (cases b) simp_all

lemma page_loop_eq:
  "req_number request = 0 \<or> sum_in_range request \<Longrightarrow>
   page_loop ext request items idx nodes =
     Inr (idx + int (length (filter (visible ext request) items)),
          nodes @ page_of request idx (filter (visible ext request) items))"
proof (induction items arbitrary: idx nodes)
  case Nil
  then show ?case by (simp add: page_of_Nil)
next
  case (Cons item rest)
  show ?case
  proof (cases "visible ext request item")
    case False
    then have "page_loop ext request (item # rest) idx nodes = page_loop ext request rest idx nodes"
      by (auto simp: visible_def)
    with False Cons show ?thesis by simp
  next
    case True
    let ?b = "sint (req_first request) \<le> idx \<and>
          (req_number request = 0 \<or> idx < sint (req_first request) + sint (req_number request))"
    have ip: "in_page request idx = Inr ?b"
      using Cons.prems by (rule in_page_eq)
    have step: "page_loop ext request (item # rest) idx nodes =
       page_loop ext request rest (idx + 1) (if ?b then nodes @ [item] else nodes)"
    proof -
      from True have h1: "\<not> (\<not> req_hidden request \<and> IsHidden item)"
        and h2: "\<not> (req_regex request \<noteq> [] \<and> \<not> IsFolder item \<and>
              \<not> regex_match ext (GetName item) (req_regex request))"
        by (auto simp: visible_def)
      have "page_loop ext request (item # rest) idx nodes =
         (case in_page request idx of
            Inl err \<Rightarrow> Inl err
          | Inr True \<Rightarrow> page_loop ext request rest (idx + 1) (nodes @ [item])
          | Inr False \<Rightarrow> page_loop ext request rest (idx + 1) nodes)"
        by (simp only: page_loop.simps h1 h2 if_False)
      also have "\<dots> = (if ?b then page_loop ext request rest (idx + 1) (nodes @ [item])
                          else page_loop ext request rest (idx + 1) nodes)"
        by (simp only: ip case_Inr_bool)
      also have "\<dots> = page_loop ext request rest (idx + 1) (if ?b then nodes @ [item] else nodes)"
        by (rule if_distrib [symmetric])
      finally show ?thesis .
    qed
    have vis: "filter (visible ext request) (item # rest) = item # filter (visible ext request) rest"
      using True by simp
    show ?thesis
      unfolding step vis Cons.IH [OF Cons.prems] page_of_Cons [of request idx item]
      by simp
  qed
qed


lemma in_page_Inr:
  "in_page request idx = Inr b \<Longrightarrow>
   b = (sint (req_first request) \<le> idx \<and>
        (req_number request = 0 \<or> idx < sint (req_first request) + sint (req_number request)))"
  by (auto simp: in_page_def Let_def split: if_splits)

lemma in_page_Inl: "in_page request idx = Inl err \<Longrightarrow> err = SignedOverflow"
  by (auto simp: in_page_def Let_def split: if_splits)

lemma page_loop_step:
  assumes "visible ext request item"
  shows "page_loop ext request (item # rest) idx nodes =
         (case in_page request idx of
            Inl err \<Rightarrow> Inl err
          | Inr True \<Rightarrow> page_loop ext request rest (idx + 1) (nodes @ [item])
          | Inr False \<Rightarrow> page_loop ext request rest (idx + 1) nodes)"
proof -
  from assms have h1: "\<not> (\<not> req_hidden request \<and> IsHidden item)"
    and h2: "\<not> (req_regex request \<noteq> [] \<and> \<not> IsFolder item \<and>
          \<not> regex_match ext (GetName item) (req_regex request))"
    by (auto simp: visible_def)
  show ?thesis
    by (simp only: page_loop.simps h1 h2 if_False)
qed

lemma page_loop_skip:
  assumes "\<not> visible ext request item"
  shows "page_loop ext request (item # rest) idx nodes = page_loop ext request rest idx nodes"
  using assms by (auto simp: visible_def)

lemma page_loop_Inr:
  "page_loop ext request items idx nodes = Inr (n, nodes') \<Longrightarrow>
   n = idx + int (length (filter (visible ext request) items)) \<and>
   nodes' = nodes @ page_of request idx (filter (visible ext request) items)"
proof (induction items arbitrary: idx nodes)
  case Nil
  then show ?case by (simp add: page_of_Nil)
next
  case (Cons item rest)
  show ?case
  proof (cases "visible ext request item")
    case False
    from Cons.prems have "page_loop ext request rest idx nodes = Inr (n, nodes')"
      unfolding page_loop_skip [OF False] .
    from Cons.IH [OF this] False show ?thesis by simp
  next
    case True
    let ?b = "sint (req_first request) \<le> idx \<and>
          (req_number request = 0 \<or> idx < sint (req_first request) + sint (req_number request))"
    from Cons.prems obtain b where ip: "in_page request idx = Inr b"
      unfolding page_loop_step [OF True] by (cases "in_page request idx") simp_all
    then have b: "b = ?b" by (rule in_page_Inr)
    have "page_loop ext request (item # rest) idx nodes =
          page_loop ext request rest (idx + 1) (if ?b then nodes @ [item] else nodes)"
      unfolding page_loop_step [OF True] ip b case_Inr_bool by (rule if_distrib [symmetric])
    with Cons.prems have
      "page_loop ext request rest (idx + 1) (if ?b then nodes @ [item] else nodes) = Inr (n, nodes')"
      by simp
    from Cons.IH [OF this] True show ?thesis
      by (simp add: page_of_Cons [of request idx item])
  qed
qed

lemma page_loop_Inl:
  "page_loop ext request items idx nodes = Inl err \<Longrightarrow>
   err = SignedOverflow \<and> req_number request \<noteq> 0 \<and> \<not> sum_in_range request"
proof (induction items arbitrary: idx nodes)
  case Nil
  then show ?case by simp
next
  case (Cons item rest)
  have range: "req_number request \<noteq> 0 \<and> \<not> sum_in_range request"
    using Cons.prems page_loop_eq [of request ext "item # rest" idx nodes] by auto
  show ?case
  proof (cases "visible ext request item")
    case False
    from Cons.prems have "page_loop ext request rest idx nodes = Inl err"
      unfolding page_loop_skip [OF False] .
    from Cons.IH [OF this] show ?thesis .
  next
    case True
    show ?thesis
    proof (cases "in_page request idx")
      case (Inl e)
      with Cons.prems have "err = e" unfolding page_loop_step [OF True] by simp
      with Inl range show ?thesis by (simp add: in_page_Inl)
    next
      case (Inr b)
      with Cons.prems have
        "page_loop ext request rest (idx + 1) (if b then nodes @ [item] else nodes) = Inl err"
        unfolding page_loop_step [OF True] by (cases b) simp_all
      from Cons.IH [OF this] show ?thesis .
    qed
  qed
qed

section \<open>The cache\<close>

lemma ComparePaths_le: "ComparePaths p k \<le> length p \<and> ComparePaths p k \<le> length k"
  by (induction p k rule: ComparePaths.induct) simp_all

lemma ComparePaths_take: "take (ComparePaths p k) k = take (ComparePaths p k) p"
  by (induction p k rule: ComparePaths.induct) simp_all

lemma ComparePaths_prefix: "n \<le> length p \<Longrightarrow> ComparePaths p (take n p) = n"
proof (induction p arbitrary: n)
  case Nil
  then show ?case by simp
next
  case (Cons x p)
  then show ?case by (cases n) simp_all
qed

lemma take_le_lex: "take n (k :: RElementPath_t) \<le> k"
proof (induction k arbitrary: n)
  case Nil
  then show ?case by simp
next
  case (Cons x k)
  then show ?case by (cases n) simp_all
qed

lemma take_less_lex: "n < length (k :: RElementPath_t) \<Longrightarrow> take n k < k"
proof -
  assume "n < length k"
  then have "length (take n k) \<noteq> length k" by simp
  then have "take n k \<noteq> k" by auto
  with take_le_lex [of n k] show ?thesis by (rule le_neq_trans)
qed

lemma walk_append:
  "walk root xs = Inr elem \<Longrightarrow> xs = [] \<or> elem \<noteq> None \<Longrightarrow> walk root (xs @ ys) = walk elem ys"
proof (induction xs arbitrary: root)
  case Nil
  then show ?case by simp
next
  case (Cons x xs)
  then show ?case
    by (auto split: option.splits)
qed

lemma resolve_loop_result:
  "pos \<le> length path \<Longrightarrow> fst (resolve_loop path pos elem cache) = walk elem (drop pos path)"
proof (induction path pos elem cache rule: resolve_loop.induct)
  case (1 path pos elem cache)
  show ?case
  proof (cases "pos < length path")
    case False
    with "1.prems" show ?thesis by (simp add: resolve_loop.simps)
  next
    case True
    then have d: "drop pos path = path ! pos # drop (pos + 1) path"
      by (simp add: Cons_nth_drop_Suc)
    show ?thesis
    proof (cases elem)
      case None
      with True d show ?thesis by (simp add: resolve_loop.simps)
    next
      case (Some e)
      show ?thesis
      proof (cases "GetChildsIter e")
        case None
        with True d Some show ?thesis by (simp add: resolve_loop.simps)
      next
        case iter: (Some iter)
        show ?thesis
        proof (cases "Find iter (path ! pos)")
          case None
          with True d Some iter show ?thesis by (simp add: resolve_loop.simps)
        next
          case c: (Some c)
          show ?thesis
          proof (cases "GetElement c")
            case None
            with True d Some iter c show ?thesis by (simp add: resolve_loop.simps)
          next
            case e': (Some e')
            from True have "pos + 1 \<le> length path" by simp
            from "1.IH" [OF True Some iter c e' this]
            show ?thesis using True d Some iter c e'
              by (subst resolve_loop.simps) simp
          qed
        qed
      qed
    qed
  qed
qed

lemma scan_cache_good:
  assumes "sorted_wrt (<) (map fst rest)"
    and "cache_correct root rest"
    and "\<forall>k \<in> fst ` set rest. \<forall>n. 0 < n \<and> n < length k \<longrightarrow>
           take n k \<in> fst ` set rest \<or> ComparePaths path (take n k) \<le> fst acc"
    and "good_start root keys path acc"
    and "fst ` set rest \<subseteq> keys"
  shows "good_start root keys path (scan_cache path rest acc)"
  using assms
proof (induction rest arbitrary: acc)
  case Nil
  then show ?case by simp
next
  case (Cons entry rest)
  obtain pos elem where acc: "acc = (pos, elem)" by (cases acc)
  obtain k e where entry: "entry = (k, e)" by (cases entry)
  let ?comp = "ComparePaths path k"
  let ?acc' = "if ?comp > pos then (?comp, Some e) else (pos, elem)"
  have step: "scan_cache path (entry # rest) acc = scan_cache path rest ?acc'"
    by (simp add: acc entry Let_def)
  have sorted': "sorted_wrt (<) (map fst rest)" and above: "\<forall>k' \<in> fst ` set rest. k < k'"
    using Cons.prems(1) by (auto simp: entry)
  have correct': "cache_correct root rest" and ek: "walk root k = Inr (Some e)"
    using Cons.prems(2) by (auto simp: cache_correct_def entry)
  have sub': "fst ` set rest \<subseteq> keys" and kin: "k \<in> keys"
    using Cons.prems(5) by (auto simp: entry)
  have good': "good_start root keys path ?acc'"
  proof (cases "?comp > pos")
    case False
    with Cons.prems(4) acc show ?thesis by simp
  next
    case True
    have "length k = ?comp"
    proof (rule ccontr)
      assume "length k \<noteq> ?comp"
      with ComparePaths_le [of path k] have lt: "?comp < length k" by simp
      from True have pos0: "0 < ?comp" by simp
      from Cons.prems(3) [rule_format, of k ?comp] pos0 lt
      have "take ?comp k \<in> fst ` set (entry # rest) \<or> ComparePaths path (take ?comp k) \<le> pos"
        by (simp add: entry acc)
      moreover have "ComparePaths path (take ?comp k) = ?comp"
      proof -
        have "ComparePaths path (take ?comp k) = ComparePaths path (take ?comp path)"
          by (rule arg_cong [OF ComparePaths_take])
        also have "\<dots> = ?comp"
          by (rule ComparePaths_prefix) (simp add: ComparePaths_le)
        finally show ?thesis .
      qed
      moreover have "take ?comp k < k" using lt by (rule take_less_lex)
      ultimately show False using True above by (auto simp: entry)
    qed
    then have "k = take ?comp path"
      using ComparePaths_take [of path k] by simp
    with ek kin True ComparePaths_le [of path k] show ?thesis
      by (simp add: good_start_def)
  qed
  have closed': "\<forall>k' \<in> fst ` set rest. \<forall>n. 0 < n \<and> n < length k' \<longrightarrow>
           take n k' \<in> fst ` set rest \<or> ComparePaths path (take n k') \<le> fst ?acc'"
  proof (intro ballI allI impI)
    fix k' n assume k': "k' \<in> fst ` set rest" and n: "0 < n \<and> n < length k'"
    from Cons.prems(3) [rule_format, of k' n] k' n
    have "take n k' \<in> fst ` set (entry # rest) \<or> ComparePaths path (take n k') \<le> pos"
      by (simp add: acc)
    then show "take n k' \<in> fst ` set rest \<or> ComparePaths path (take n k') \<le> fst ?acc'"
      by (auto simp: entry)
  qed
  show ?case
    unfolding step by (rule Cons.IH [OF sorted' correct' closed' good' sub'])
qed


lemma cache_wf_sorted: "cache_wf cache \<Longrightarrow> sorted_wrt (<) (map fst cache)"
  by (simp add: cache_wf_def)

lemma cache_wf_nonempty: "cache_wf cache \<Longrightarrow> k \<in> fst ` set cache \<Longrightarrow> k \<noteq> []"
  unfolding cache_wf_def by blast

lemma cache_wf_prefix:
  assumes "cache_wf cache" "k \<in> fst ` set cache" "0 < n" "n < length k"
  shows "take n k \<in> fst ` set cache"
proof -
  from assms(3,4) have "n \<in> {1..<length k}" by simp
  with assms(1,2) show ?thesis unfolding cache_wf_def by blast
qed

lemma cache_wfI:
  assumes "sorted_wrt (<) (map fst cache)"
    and "\<And>k. k \<in> fst ` set cache \<Longrightarrow> k \<noteq> []"
    and "\<And>k n. k \<in> fst ` set cache \<Longrightarrow> 0 < n \<Longrightarrow> n < length k \<Longrightarrow> take n k \<in> fst ` set cache"
  shows "cache_wf cache"
  unfolding cache_wf_def
proof (intro conjI ballI)
  show "sorted_wrt (<) (map fst cache)" by (rule assms(1))
next
  fix k assume "k \<in> fst ` set cache"
  then show "k \<noteq> []" by (rule assms(2))
next
  fix k n assume "k \<in> fst ` set cache" "n \<in> {1..<length k}"
  then show "take n k \<in> fst ` set cache" by (intro assms(3)) simp_all
qed

lemma cache_store_keys: "fst ` set (cache_store k v cache) = insert k (fst ` set cache)"
  by (induction k v cache rule: cache_store.induct) (simp_all add: insert_commute)

lemma cache_store_entries: "set (cache_store k v cache) \<subseteq> insert (k, v) (set cache)"
  by (induction cache) (auto split: if_splits)

lemma cache_store_sorted:
  "sorted_wrt (<) (map fst cache) \<Longrightarrow> sorted_wrt (<) (map fst (cache_store k v cache))"
proof (induction cache)
  case Nil
  then show ?case by simp
next
  case (Cons entry cache)
  obtain k' v' where entry: "entry = (k', v')" by (cases entry)
  from Cons.prems have above: "\<forall>x \<in> fst ` set cache. k' < x"
    and sorted': "sorted_wrt (<) (map fst cache)"
    by (auto simp: entry)
  consider "k = k'" | "k < k'" | "k' < k" by (rule linorder_cases [of k k']) auto
  then show ?case
  proof cases
    case 1
    with Cons.prems show ?thesis by (simp add: entry)
  next
    case 2
    with Cons.prems above show ?thesis by (auto simp: entry)
  next
    case 3
    then have neq: "k \<noteq> k'" "\<not> k < k'" by auto
    have "\<forall>x \<in> fst ` set (cache_store k v cache). k' < x"
      using above 3 by (simp add: cache_store_keys)
    with Cons.IH [OF sorted'] neq show ?thesis by (auto simp: entry)
  qed
qed

lemma walk_snoc:
  assumes "walk root xs = Inr (Some e)" "GetChildsIter e = Some iter" "Find iter x = Some c"
    "GetElement c = Some e'"
  shows "walk root (xs @ [x]) = Inr (Some e')"
proof -
  from assms(1) have "walk root (xs @ [x]) = walk (Some e) [x]"
    by (rule walk_append) simp
  with assms(2-4) show ?thesis by simp
qed

lemma resolve_loop_cache:
  assumes "cache_wf cache" "cache_correct root cache" "good_start root (fst ` set cache) path (pos, elem)"
  shows "cache_wf (snd (resolve_loop path pos elem cache)) \<and>
         cache_correct root (snd (resolve_loop path pos elem cache))"
  using assms
proof (induction path pos elem cache rule: resolve_loop.induct)
  case (1 path pos elem cache)
  show ?case
  proof (cases "pos < length path \<and> (\<exists>e iter c e'. elem = Some e \<and> GetChildsIter e = Some iter \<and>
                   Find iter (path ! pos) = Some c \<and> GetElement c = Some e')")
    case False
    then have "snd (resolve_loop path pos elem cache) = cache"
      by (subst resolve_loop.simps) (auto split: option.splits)
    with "1.prems" show ?thesis by simp
  next
    case True
    then obtain e iter c e' where lt: "pos < length path" and e: "elem = Some e"
      and iter: "GetChildsIter e = Some iter" and c: "Find iter (path ! pos) = Some c"
      and e': "GetElement c = Some e'" by blast
    let ?k = "take (pos + 1) path"
    let ?cache' = "cache_store ?k e' cache"
    have unfold: "resolve_loop path pos elem cache = resolve_loop path (pos + 1) (Some e') ?cache'"
      using lt e iter c e' by (subst resolve_loop.simps) simp
    have k: "?k = take pos path @ [path ! pos]"
      using lt by (simp add: take_Suc_conv_app_nth)
    from "1.prems"(3) e have w: "walk root (take pos path) = Inr (Some e)"
      and pk: "pos = 0 \<or> take pos path \<in> fst ` set cache"
      by (auto simp: good_start_def)
    have wk: "walk root ?k = Inr (Some e')"
      unfolding k using w iter c e' by (rule walk_snoc)
    have keys': "fst ` set ?cache' = insert ?k (fst ` set cache)"
      by (rule cache_store_keys)
    have wf': "cache_wf ?cache'"
    proof (rule cache_wfI)
      show "sorted_wrt (<) (map fst ?cache')"
        using "1.prems"(1) by (simp add: cache_wf_sorted cache_store_sorted)
    next
      fix x assume "x \<in> fst ` set ?cache'"
      then have "x = ?k \<or> x \<in> fst ` set cache" unfolding keys' by simp
      then show "x \<noteq> []"
        using lt cache_wf_nonempty [OF "1.prems"(1)] by auto
    next
      fix x n assume x: "x \<in> fst ` set ?cache'" and n: "0 < n" "n < length x"
      from x have "x = ?k \<or> x \<in> fst ` set cache" unfolding keys' by simp
      then show "take n x \<in> fst ` set ?cache'"
      proof
        assume "x \<in> fst ` set cache"
        from cache_wf_prefix [OF "1.prems"(1) this n] show ?thesis
          unfolding keys' by simp
      next
        assume xk: "x = ?k"
        with n lt have npos: "n \<le> pos" "0 < pos" by auto
        with pk have in_keys: "take pos path \<in> fst ` set cache" by simp
        have "take n path \<in> fst ` set cache"
        proof (cases "n = pos")
          case True
          with in_keys show ?thesis by simp
        next
          case False
          with npos lt have "n < length (take pos path)" by simp
          from cache_wf_prefix [OF "1.prems"(1) in_keys n(1) this]
          have "take n (take pos path) \<in> fst ` set cache" .
          moreover have "take n (take pos path) = take n path"
            using npos by (simp add: min_absorb1)
          ultimately show ?thesis by simp
        qed
        moreover have "take n x = take n path" using xk npos by (simp add: min_absorb1)
        ultimately show ?thesis unfolding keys' by simp
      qed
    qed
    have correct': "cache_correct root ?cache'"
      using cache_store_entries [of ?k e' cache] "1.prems"(2) wk
      by (auto simp: cache_correct_def)
    have good': "good_start root (fst ` set ?cache') path (pos + 1, Some e')"
      using lt wk keys' by (simp add: good_start_def)
    from "1.IH" [OF lt e iter c e' wf' correct' good'] show ?thesis
      unfolding unfold .
  qed
qed

section \<open>GetSubElement and the cache invariant\<close>

lemma GetSubElement_eq:
  "GetSubElement path s =
     (if path = [] then (Inr (fTopElement s), s)
      else (fst (resolve_loop path (fst (scan_cache path (fCache s) (0, fTopElement s)))
                   (snd (scan_cache path (fCache s) (0, fTopElement s))) (fCache s)),
            s\<lparr>fCache := snd (resolve_loop path (fst (scan_cache path (fCache s) (0, fTopElement s)))
                   (snd (scan_cache path (fCache s) (0, fTopElement s))) (fCache s))\<rparr>))"
  by (simp add: GetSubElement_def split: prod.splits)

lemma GetSubElement_frame:
  "snd (GetSubElement path s) = s\<lparr>fCache := fCache (snd (GetSubElement path s))\<rparr>"
  by (simp add: GetSubElement_eq)

lemma GetSubElement_top: "fTopElement (snd (GetSubElement path s)) = fTopElement s"
  by (simp add: GetSubElement_eq)

lemma GetSubElement_empty_cache:
  "fst (GetSubElement path (s\<lparr>fCache := []\<rparr>)) = walk (fTopElement s) path"
  by (simp add: GetSubElement_eq resolve_loop_result)

lemma cache_sound_iff:
  "cache_sound s \<longleftrightarrow> cache_wf (fCache s) \<and> cache_correct (fTopElement s) (fCache s)"
  by (simp add: cache_sound_def cache_correct_def GetSubElement_empty_cache)

lemma cache_sound_cong:
  "fTopElement s' = fTopElement s \<Longrightarrow> fCache s' = fCache s \<Longrightarrow> cache_sound s' = cache_sound s"
  by (simp add: cache_sound_iff)

text \<open>The cache invariant holds of the empty cache, so of a fresh RBrowserData.\<close>

lemma cache_sound_empty: "fCache s = [] \<Longrightarrow> cache_sound s"
  by (simp add: cache_sound_def cache_wf_def)

lemma scan_cache_start:
  assumes "cache_wf cache" "cache_correct root cache"
  shows "good_start root (fst ` set cache) path (scan_cache path cache (0, root))"
proof (rule scan_cache_good)
  show "sorted_wrt (<) (map fst cache)" using assms(1) by (rule cache_wf_sorted)
  show "cache_correct root cache" by (rule assms(2))
  show "\<forall>k \<in> fst ` set cache. \<forall>n. 0 < n \<and> n < length k \<longrightarrow>
           take n k \<in> fst ` set cache \<or> ComparePaths path (take n k) \<le> fst (0::nat, root)"
    using cache_wf_prefix [OF assms(1)] by blast
  show "good_start root (fst ` set cache) path (0, root)" by (simp add: good_start_def)
  show "fst ` set cache \<subseteq> fst ` set cache" by simp
qed


lemma GetSubElement_sound:
  assumes "cache_sound s"
  shows "cache_sound (snd (GetSubElement path s))"
proof (cases "path = []")
  case True
  with assms show ?thesis by (simp add: GetSubElement_eq)
next
  case False
  let ?sc = "scan_cache path (fCache s) (0, fTopElement s)"
  from assms have wf: "cache_wf (fCache s)" and ok: "cache_correct (fTopElement s) (fCache s)"
    by (simp_all add: cache_sound_iff)
  then have "good_start (fTopElement s) (fst ` set (fCache s)) path (fst ?sc, snd ?sc)"
    by (simp add: scan_cache_start)
  from resolve_loop_cache [OF wf ok this] False show ?thesis
    by (simp add: cache_sound_iff GetSubElement_eq)
qed

section \<open>The stages of ProcessBrowserRequest\<close>

lemma ResetLastRequest_frame:
  "fTopElement (ResetLastRequest s) = fTopElement s"
  "fCache (ResetLastRequest s) = fCache s"
  "fWorkingPath (ResetLastRequest s) = fWorkingPath s"
  "fLastSortReverse (ResetLastRequest s) = fLastSortReverse s"
  by (simp_all add: ResetLastRequest_def)

lemma locate_element_cases:
  "locate_element path s =
     (if path \<noteq> fLastPath s \<or> fLastElement s = None then
        (case fst (GetSubElement path s) of
           Inl err \<Rightarrow> (Inl err, snd (GetSubElement path s))
         | Inr None \<Rightarrow> (Inr False, snd (GetSubElement path s))
         | Inr (Some elem) \<Rightarrow>
             (Inr True, (ResetLastRequest (snd (GetSubElement path s)))
                          \<lparr>fLastPath := path, fLastElement := Some elem\<rparr>))
      else (Inr True, s))"
  by (cases "GetSubElement path s") (simp add: locate_element_def split: sum.splits option.splits)

lemma locate_element_top: "fTopElement (snd (locate_element path s)) = fTopElement s"
  by (simp add: locate_element_cases GetSubElement_top ResetLastRequest_frame
      split: sum.splits option.splits)

lemma locate_element_cache:
  "fCache (snd (locate_element path s)) = fCache s \<or>
   fCache (snd (locate_element path s)) = fCache (snd (GetSubElement path s))"
  by (simp add: locate_element_cases ResetLastRequest_frame split: sum.splits option.splits)

lemma locate_element_sound:
  assumes "cache_sound s"
  shows "cache_sound (snd (locate_element path s))"
proof -
  from locate_element_cache [of path s] show ?thesis
  proof
    assume "fCache (snd (locate_element path s)) = fCache s"
    with assms show ?thesis
      using cache_sound_cong [of "snd (locate_element path s)" s] by (simp add: locate_element_top)
  next
    assume "fCache (snd (locate_element path s)) = fCache (snd (GetSubElement path s))"
    with GetSubElement_sound [OF assms, of path] show ?thesis
      using cache_sound_cong [of "snd (locate_element path s)" "snd (GetSubElement path s)"]
      by (simp add: locate_element_top GetSubElement_top)
  qed
qed

lemma list_childs_frame:
  "fTopElement (snd (list_childs s)) = fTopElement s"
  "fCache (snd (list_childs s)) = fCache s"
  "fLastPath (snd (list_childs s)) = fLastPath s"
  "fLastElement (snd (list_childs s)) = fLastElement s"
  "fLastSortReverse (snd (list_childs s)) = fLastSortReverse s"
  by (simp_all add: list_childs_def split: option.splits prod.splits)

lemma sort_childs_frame:
  "fTopElement (sort_childs ext request s) = fTopElement s"
  "fCache (sort_childs ext request s) = fCache s"
  "fLastPath (sort_childs ext request s) = fLastPath s"
  "fLastElement (sort_childs ext request s) = fLastElement s"
  "fLastItems (sort_childs ext request s) = fLastItems s"
  "fLastAllChilds (sort_childs ext request s) = fLastAllChilds s"
  by (simp_all add: sort_childs_def)

lemma fill_reply_cases:
  "fill_reply ext request reply s = (res, reply') \<Longrightarrow>
     (res = Inl RegexError \<and> \<not> regex_valid ext (req_regex request) \<and> reply' = reply) \<or>
     (res = Inl SignedOverflow \<and> regex_valid ext (req_regex request) \<and> reply' = reply \<and>
        req_number request \<noteq> 0 \<and> \<not> sum_in_range request) \<or>
     (res = Inr True \<and> regex_valid ext (req_regex request) \<and>
        reply' = reply\<lparr>reply_nodes := reply_nodes reply @
                           page_of request 0 (filter (visible ext request) (fLastSortedItems s)),
                        reply_first := req_first request,
                        reply_nchilds := int (length (filter (visible ext request) (fLastSortedItems s)))\<rparr>)"
proof (cases "regex_valid ext (req_regex request)")
  case False
  then show "fill_reply ext request reply s = (res, reply') \<Longrightarrow> ?thesis"
    by (auto simp: fill_reply_def)
next
  case True
  assume fr: "fill_reply ext request reply s = (res, reply')"
  show ?thesis
  proof (cases "page_loop ext request (fLastSortedItems s) 0 (reply_nodes reply)")
    case (Inl err)
    from page_loop_Inl [OF this] Inl fr True show ?thesis
      by (auto simp: fill_reply_def)
  next
    case (Inr r)
    obtain n nodes' where r: "r = (n, nodes')" by (cases r)
    from page_loop_Inr [OF Inr [unfolded r]] Inr r fr True show ?thesis
      by (auto simp: fill_reply_def)
  qed
qed

lemma ProcessBrowserRequest_eq:
  "ProcessBrowserRequest ext request reply s =
     (if fst (locate_element (DecomposePath (req_path request) True s) s) \<noteq> Inr True
      then (fst (locate_element (DecomposePath (req_path request) True s) s),
            after_locate request s, reply)
      else if fst (list_childs (after_locate request s)) \<noteq> Inr True
      then (fst (list_childs (after_locate request s)), after_list request s, reply)
      else (fst (fill_reply ext request reply (after_sort ext request s)),
            after_sort ext request s,
            snd (fill_reply ext request reply (after_sort ext request s))))"
  by (simp add: ProcessBrowserRequest_def after_locate_def after_list_def after_sort_def Let_def
      split: prod.splits sum.splits bool.splits)

lemma ProcessBrowserRequest_state:
  "fst (snd (ProcessBrowserRequest ext request reply s)) = after_locate request s \<or>
   fst (snd (ProcessBrowserRequest ext request reply s)) = after_list request s \<or>
   fst (snd (ProcessBrowserRequest ext request reply s)) = after_sort ext request s"
  by (simp add: ProcessBrowserRequest_eq)

lemma ProcessBrowserRequest_success:
  assumes "ProcessBrowserRequest ext request reply s = (Inr True, s', reply')"
  shows "s' = after_sort ext request s"
    and "regex_valid ext (req_regex request)"
    and "reply' = reply\<lparr>reply_nodes := reply_nodes reply @
                           page_of request 0 (filter (visible ext request) (fLastSortedItems s')),
                        reply_first := req_first request,
                        reply_nchilds := int (length (filter (visible ext request) (fLastSortedItems s')))\<rparr>"
proof -
  from assms have l1: "fst (locate_element (DecomposePath (req_path request) True s) s) = Inr True"
    and l2: "fst (list_childs (after_locate request s)) = Inr True"
    by (auto simp: ProcessBrowserRequest_eq split: if_splits)
  with assms show s': "s' = after_sort ext request s"
    by (simp add: ProcessBrowserRequest_eq)
  from assms l1 l2 have "fill_reply ext request reply s' = (Inr True, reply')"
    by (cases "fill_reply ext request reply (after_sort ext request s)")
       (simp add: ProcessBrowserRequest_eq s')
  from fill_reply_cases [OF this]
  show "regex_valid ext (req_regex request)"
    and "reply' = reply\<lparr>reply_nodes := reply_nodes reply @
                           page_of request 0 (filter (visible ext request) (fLastSortedItems s')),
                        reply_first := req_first request,
                        reply_nchilds := int (length (filter (visible ext request) (fLastSortedItems s')))\<rparr>"
    by simp_all
qed

lemma after_locate_sound: "cache_sound s \<Longrightarrow> cache_sound (after_locate request s)"
  by (simp add: after_locate_def locate_element_sound)

lemma after_list_sound: "cache_sound s \<Longrightarrow> cache_sound (after_list request s)"
  using cache_sound_cong [of "after_list request s" "after_locate request s"]
  by (simp add: after_list_def list_childs_frame after_locate_sound)

lemma after_sort_sound: "cache_sound s \<Longrightarrow> cache_sound (after_sort ext request s)"
  using cache_sound_cong [of "after_sort ext request s" "after_list request s"]
  by (simp add: after_sort_def sort_childs_frame after_list_sound)

lemma ProcessBrowserRequest_sound:
  assumes "cache_sound s"
  shows "cache_sound (fst (snd (ProcessBrowserRequest ext request reply s)))"
  using ProcessBrowserRequest_state [of ext request reply s]
    after_locate_sound [OF assms, of request] after_list_sound [OF assms, of request]
    after_sort_sound [OF assms, of ext request]
  by auto

lemma ProcessRequest_state:
  "snd (ProcessRequest ext request s) =
   fst (snd (ProcessBrowserRequest ext request
     \<lparr>reply_path = req_path request, reply_first = 0, reply_nchilds = 0, reply_nodes = []\<rparr> s))"
  by (simp add: ProcessRequest_def Let_def split: prod.splits sum.splits)

lemma setters_frame:
  "fTopElement (SetWorkingPath path s) = fTopElement s"
  "fCache (SetWorkingPath path s) = fCache s"
  "fTopElement (SetWorkingDirectory strpath s) = fTopElement s"
  "fCache (SetWorkingDirectory strpath s) = fCache s"
  "fTopElement (SetTopElement elem s) = elem"
  "fCache (SetTopElement elem s) = fCache s"
  by (simp_all add: SetWorkingPath_def SetWorkingDirectory_def SetTopElement_def ResetLastRequest_def)

lemma order_items_empty: "order_items ext [] reverse_order [] = []"
  by (simp add: order_items_def)

lemma sorted_consistent_reset: "sorted_consistent ext (ResetLastRequest s)"
  by (simp add: sorted_consistent_def ResetLastRequest_def order_items_empty)

lemma sorted_consistent_GetSubElement:
  "sorted_consistent ext s \<Longrightarrow> sorted_consistent ext (snd (GetSubElement path s))"
  by (simp add: sorted_consistent_def GetSubElement_eq)

lemma sorted_consistent_after_locate:
  assumes "sorted_consistent ext s"
  shows "sorted_consistent ext (after_locate request s)"
proof -
  have reset: "sorted_consistent ext ((ResetLastRequest t)\<lparr>fLastPath := p, fLastElement := e\<rparr>)" for t p e
    by (simp add: sorted_consistent_def ResetLastRequest_def order_items_empty)
  show ?thesis
    using assms reset sorted_consistent_GetSubElement [OF assms]
    by (simp add: after_locate_def locate_element_cases split: sum.splits option.splits)
qed

lemma sorted_consistent_after_list:
  assumes "sorted_consistent ext s"
  shows "sorted_consistent ext (after_list request s)"
  using sorted_consistent_after_locate [OF assms, of request]
  unfolding after_list_def list_childs_def
  by (auto simp: sorted_consistent_def order_items_empty split: option.splits prod.splits)

lemma sorted_consistent_after_sort:
  assumes "sorted_consistent ext s"
  shows "sorted_consistent ext (after_sort ext request s)"
  using sorted_consistent_after_list [OF assms, of request]
  by (auto simp: after_sort_def sort_childs_def sorted_consistent_def)

lemma sorted_consistent_kept:
  "sorted_consistent ext initial_state"
  "sorted_consistent ext s \<Longrightarrow> sorted_consistent ext (snd (GetSubElement path s))"
  "sorted_consistent ext s \<Longrightarrow>
     sorted_consistent ext (fst (snd (ProcessBrowserRequest ext request reply s)))"
  "sorted_consistent ext s \<Longrightarrow> sorted_consistent ext (snd (ProcessRequest ext request s))"
  "sorted_consistent ext (ResetLastRequest s)"
  "sorted_consistent ext (SetWorkingPath path s)"
  "sorted_consistent ext (SetWorkingDirectory strpath s)"
  "sorted_consistent ext (SetTopElement elem s)"
proof -
  show "sorted_consistent ext initial_state"
    by (simp add: sorted_consistent_def initial_state_def order_items_empty)
  show "sorted_consistent ext s \<Longrightarrow> sorted_consistent ext (snd (GetSubElement path s))"
    by (rule sorted_consistent_GetSubElement)
  show pbr: "sorted_consistent ext (fst (snd (ProcessBrowserRequest ext request reply s)))"
    if "sorted_consistent ext s" for request reply
    using ProcessBrowserRequest_state [of ext request reply s]
      sorted_consistent_after_locate [OF that, of request]
      sorted_consistent_after_list [OF that, of request]
      sorted_consistent_after_sort [OF that, of request]
    by auto
  show "sorted_consistent ext s \<Longrightarrow> sorted_consistent ext (snd (ProcessRequest ext request s))"
    unfolding ProcessRequest_state by (rule pbr)
  show "sorted_consistent ext (ResetLastRequest s)"
    by (rule sorted_consistent_reset)
  show "sorted_consistent ext (SetWorkingPath path s)"
    unfolding SetWorkingPath_def by (rule sorted_consistent_reset)
  show "sorted_consistent ext (SetWorkingDirectory strpath s)"
    unfolding SetWorkingDirectory_def SetWorkingPath_def by (rule sorted_consistent_reset)
  show "sorted_consistent ext (SetTopElement elem s)"
    unfolding SetTopElement_def SetWorkingDirectory_def SetWorkingPath_def
    by (rule sorted_consistent_reset)
qed

lemma locate_element_success:
  assumes "fst (locate_element path s) = Inr True"
  shows "fLastPath (snd (locate_element path s)) = path"
    and "fLastElement (snd (locate_element path s)) \<noteq> None"
  using assms
  by (auto simp: locate_element_cases split: if_splits sum.splits option.splits)

lemma sorted_after_sort:
  assumes "sorted_consistent ext s"
  shows "fLastSortedItems (sort_childs ext request s) =
         order_items ext (req_sort request) (req_reverse request) (fLastItems s)"
  using assms by (auto simp: sort_childs_def sorted_consistent_def)

lemma order_items_unsorted:
  "order_items ext ''unsorted'' reverse_order items = (if reverse_order then rev items else items)"
  by (simp add: order_items_def)

lemma collect_items_fresh:
  "collect_items iter [] 0 True = (take 10002 (map CreateItem iter), length iter < 10002)"
  using collect_items_eq [of 0 iter "[]"] by simp

lemma list_childs_rebuild:
  assumes "fLastItems s = []" "fLastElement s = Some e" "GetChildsIter e = Some iter"
  shows "list_childs s =
         (Inr True, s\<lparr>fLastAllChilds := length iter < 10002,
                       fLastItems := take 10002 (map CreateItem iter),
                       fLastSortedItems := [], fLastSortMethod := []\<rparr>)"
  using assms by (simp add: list_childs_def collect_items_fresh)

lemma locate_element_fresh:
  assumes "path \<noteq> fLastPath s \<or> fLastElement s = None"
    and "fst (GetSubElement path s) = Inr (Some e)"
  shows "locate_element path s =
         (Inr True, (ResetLastRequest (snd (GetSubElement path s)))\<lparr>fLastPath := path, fLastElement := Some e\<rparr>)"
  using assms by (simp add: locate_element_cases)

lemma ProcessBrowserRequest_fresh_listing:
  assumes "DecomposePath (req_path request) True s \<noteq> fLastPath s \<or> fLastElement s = None"
    and "fst (GetSubElement (DecomposePath (req_path request) True s) s) = Inr (Some e)"
    and "GetChildsIter e = Some iter"
  shows "fLastItems (fst (snd (ProcessBrowserRequest ext request reply s))) = take 10002 (map CreateItem iter)"
    and "fLastAllChilds (fst (snd (ProcessBrowserRequest ext request reply s))) = (length iter < 10002)"
proof -
  let ?path = "DecomposePath (req_path request) True s"
  let ?s1 = "(ResetLastRequest (snd (GetSubElement ?path s)))\<lparr>fLastPath := ?path, fLastElement := Some e\<rparr>"
  have loc: "locate_element ?path s = (Inr True, ?s1)"
    using assms(1,2) by (rule locate_element_fresh)
  then have s1: "after_locate request s = ?s1" by (simp add: after_locate_def)
  have "list_childs ?s1 =
         (Inr True, ?s1\<lparr>fLastAllChilds := length iter < 10002,
                       fLastItems := take 10002 (map CreateItem iter),
                       fLastSortedItems := [], fLastSortMethod := []\<rparr>)"
    using assms(3) by (intro list_childs_rebuild) (simp_all add: ResetLastRequest_def)
  then have lst: "fst (list_childs (after_locate request s)) = Inr True"
    and items: "fLastItems (after_list request s) = take 10002 (map CreateItem iter)"
    and allc: "fLastAllChilds (after_list request s) = (length iter < 10002)"
    by (simp_all add: s1 after_list_def)
  have "fst (snd (ProcessBrowserRequest ext request reply s)) = after_sort ext request s"
    using loc lst by (simp add: ProcessBrowserRequest_eq)
  then show "fLastItems (fst (snd (ProcessBrowserRequest ext request reply s))) = take 10002 (map CreateItem iter)"
    and "fLastAllChilds (fst (snd (ProcessBrowserRequest ext request reply s))) = (length iter < 10002)"
    by (simp_all add: after_sort_def sort_childs_frame items allc)
qed

lemma ProcessBrowserRequest_collapse:
  assumes "fst (ProcessBrowserRequest ext request reply s) = Inr True"
  shows "ProcessBrowserRequest ext request reply s =
         (Inr True, fst (snd (ProcessBrowserRequest ext request reply s)),
          snd (snd (ProcessBrowserRequest ext request reply s)))"
  using assms by (cases "ProcessBrowserRequest ext request reply s") simp

lemma sint_number_zero: "(req_number request = 0) = (sint (req_number request) = 0)"
  by (simp add: signed_eq_0_iff)

lemma page_of_from_start:
  "page_of request 0 vis =
     (if req_number request = 0 then drop (nat (sint (req_first request))) vis
      else take (nat (sint (req_first request) + sint (req_number request)) - nat (sint (req_first request)))
             (drop (nat (sint (req_first request))) vis))"
  by (simp add: page_of_def Let_def)

lemma length_page_of:
  assumes "0 \<le> sint (req_first request)" "0 \<le> sint (req_number request)"
  shows "int (length (page_of request 0 vis)) =
         (if 0 < sint (req_number request)
          then min (sint (req_number request)) (max 0 (int (length vis) - sint (req_first request)))
          else max 0 (int (length vis) - sint (req_first request)))"
proof -
  from assms obtain f n where f: "sint (req_first request) = int f"
    and n: "sint (req_number request) = int n"
    using nonneg_int_cases by metis
  have zero: "(req_number request = 0) = (n = 0)"
    by (simp add: sint_number_zero n)
  have "length (page_of request 0 vis) = (if n = 0 then length vis - f else min n (length vis - f))"
    by (simp add: page_of_from_start f n zero nat_add_distrib min.commute)
  then show ?thesis
    unfolding f n by (cases "f \<le> length vis") (auto simp: min_def max_def)
qed

lemma page_of_negative_number:
  "sint (req_number request) < 0 \<Longrightarrow> page_of request 0 vis = []"
  by (auto simp: page_of_from_start)

lemma page_of_negative_first:
  assumes "sint (req_first request) < 0"
  shows "page_of request 0 vis =
         (if req_number request = 0 then vis
          else take (nat (sint (req_first request) + sint (req_number request))) vis)"
  using assms by (simp add: page_of_from_start)

lemma fill_reply_returns:
  assumes "regex_valid ext (req_regex request)" "req_number request = 0 \<or> sum_in_range request"
  shows "fst (fill_reply ext request reply s) = Inr True"
  using assms by (simp add: fill_reply_def page_loop_eq)

lemma visible_window_independent:
  "visible ext (request\<lparr>req_first := f, req_number := n\<rparr>) = visible ext request"
  by (rule ext) (simp add: visible_def)

lemma page_of_subset: "set (page_of request idx vis) \<subseteq> set vis"
proof -
  have "set (take n (drop m vis)) \<subseteq> set vis" for n m
    using set_take_subset [of n "drop m vis"] set_drop_subset [of m vis] by blast
  then show ?thesis
    by (simp add: page_of_def Let_def set_drop_subset)
qed

lemma resolve_loop_no_overflow: "fst (resolve_loop path pos elem cache) \<noteq> Inl SignedOverflow"
  by (induction path pos elem cache rule: resolve_loop.induct)
     (subst resolve_loop.simps, auto split: option.splits)

lemma locate_element_no_overflow: "fst (locate_element path s) \<noteq> Inl SignedOverflow"
  using resolve_loop_no_overflow
  by (auto simp: locate_element_cases GetSubElement_eq split: sum.splits option.splits if_splits)

lemma list_childs_no_overflow: "fst (list_childs s) \<noteq> Inl SignedOverflow"
  by (auto simp: list_childs_def split: option.splits prod.splits)

lemma resolve_loop_no_regex: "fst (resolve_loop path pos elem cache) \<noteq> Inl RegexError"
  by (induction path pos elem cache rule: resolve_loop.induct)
     (subst resolve_loop.simps, auto split: option.splits)

lemma page_length_when_returned:
  assumes "fst (ProcessBrowserRequest ext request reply s) = Inr True"
    and "0 \<le> sint (req_first request)" "0 \<le> sint (req_number request)"
  shows "int (length (reply_nodes (snd (snd (ProcessBrowserRequest ext request reply s))))) -
           int (length (reply_nodes reply)) =
         (if 0 < sint (req_number request)
          then min (sint (req_number request))
                 (max 0 (reply_nchilds (snd (snd (ProcessBrowserRequest ext request reply s))) -
                         sint (req_first request)))
          else max 0 (reply_nchilds (snd (snd (ProcessBrowserRequest ext request reply s))) -
                      sint (req_first request)))"
    and "reply_nchilds (snd (snd (ProcessBrowserRequest ext request reply s))) =
         int (length (filter (visible ext request)
                (fLastSortedItems (fst (snd (ProcessBrowserRequest ext request reply s))))))"
proof -
  note succ = ProcessBrowserRequest_success [OF ProcessBrowserRequest_collapse [OF assms(1)]]
  show total: "reply_nchilds (snd (snd (ProcessBrowserRequest ext request reply s))) =
         int (length (filter (visible ext request)
                (fLastSortedItems (fst (snd (ProcessBrowserRequest ext request reply s))))))"
    by (subst succ(3)) simp
  have "reply_nodes (snd (snd (ProcessBrowserRequest ext request reply s))) =
        reply_nodes reply @ page_of request 0 (filter (visible ext request)
                (fLastSortedItems (fst (snd (ProcessBrowserRequest ext request reply s)))))"
    by (subst succ(3)) simp
  then show "int (length (reply_nodes (snd (snd (ProcessBrowserRequest ext request reply s))))) -
           int (length (reply_nodes reply)) =
         (if 0 < sint (req_number request)
          then min (sint (req_number request))
                 (max 0 (reply_nchilds (snd (snd (ProcessBrowserRequest ext request reply s))) -
                         sint (req_first request)))
          else max 0 (reply_nchilds (snd (snd (ProcessBrowserRequest ext request reply s))) -
                      sint (req_first request)))"
    unfolding total by (simp add: length_page_of [OF assms(2,3)])
qed

section \<open>The claims\<close>



text \<open>
  C2. For \<open>first\<close> and \<open>number\<close> non-negative: when the sum
  \<^verbatim>\<open>request.first + request.number\<close> is representable as an \<^verbatim>\<open>int\<close> (or \<open>number\<close>
  is 0, and the sum is not computed), a request whose path resolves to an element with a
  child iterator and whose regex is valid returns a page; and every page returned holds
  \<open>min number (max 0 (total - first))\<close> items when \<open>number\<close> is positive and
  \<open>max 0 (total - first)\<close> items when it is 0, where the reported total is the number of
  items of the sorted sequence that pass the hidden and regex tests, which do not read
  \<open>first\<close> or \<open>number\<close>.
\<close>

theorem pagination:
  assumes "0 \<le> sint (req_first request)" "0 \<le> sint (req_number request)"
  shows "(fst (locate_element (DecomposePath (req_path request) True s) s) = Inr True \<and>
          fst (list_childs (after_locate request s)) = Inr True \<and>
          regex_valid ext (req_regex request) \<and>
          (req_number request = 0 \<or> sum_in_range request) \<longrightarrow>
            fst (ProcessBrowserRequest ext request reply s) = Inr True) \<and>
         (fst (ProcessBrowserRequest ext request reply s) = Inr True \<longrightarrow>
            int (length (reply_nodes (snd (snd (ProcessBrowserRequest ext request reply s))))) -
              int (length (reply_nodes reply)) =
            (if 0 < sint (req_number request)
             then min (sint (req_number request))
                    (max 0 (reply_nchilds (snd (snd (ProcessBrowserRequest ext request reply s))) -
                            sint (req_first request)))
             else max 0 (reply_nchilds (snd (snd (ProcessBrowserRequest ext request reply s))) -
                         sint (req_first request))) \<and>
            reply_nchilds (snd (snd (ProcessBrowserRequest ext request reply s))) =
              int (length (filter (visible ext request)
                     (fLastSortedItems (fst (snd (ProcessBrowserRequest ext request reply s))))))) \<and>
         visible ext (request\<lparr>req_first := f, req_number := n\<rparr>) = visible ext request"
proof (intro conjI impI)
  assume "fst (locate_element (DecomposePath (req_path request) True s) s) = Inr True \<and>
          fst (list_childs (after_locate request s)) = Inr True \<and>
          regex_valid ext (req_regex request) \<and>
          (req_number request = 0 \<or> sum_in_range request)"
  then show "fst (ProcessBrowserRequest ext request reply s) = Inr True"
    by (simp add: ProcessBrowserRequest_eq fill_reply_returns)
next
  assume ok: "fst (ProcessBrowserRequest ext request reply s) = Inr True"
  show "int (length (reply_nodes (snd (snd (ProcessBrowserRequest ext request reply s))))) -
              int (length (reply_nodes reply)) =
            (if 0 < sint (req_number request)
             then min (sint (req_number request))
                    (max 0 (reply_nchilds (snd (snd (ProcessBrowserRequest ext request reply s))) -
                            sint (req_first request)))
             else max 0 (reply_nchilds (snd (snd (ProcessBrowserRequest ext request reply s))) -
                         sint (req_first request)))"
    using ok assms by (rule page_length_when_returned(1))
  show "reply_nchilds (snd (snd (ProcessBrowserRequest ext request reply s))) =
              int (length (filter (visible ext request)
                     (fLastSortedItems (fst (snd (ProcessBrowserRequest ext request reply s))))))"
    using ok assms by (rule page_length_when_returned(2))
next
  show "visible ext (request\<lparr>req_first := f, req_number := n\<rparr>) = visible ext request"
    by (rule visible_window_independent)
qed

theorem pagination_witness:
  "0 \<le> sint (req_first ((sample_request [])\<lparr>req_first := 1, req_number := 1\<rparr>)) \<and>
   0 \<le> sint (req_number ((sample_request [])\<lparr>req_first := 1, req_number := 1\<rparr>)) \<and>
   fst (ProcessBrowserRequest sample_externals ((sample_request [])\<lparr>req_first := 1, req_number := 1\<rparr>)
          empty_reply sample_state) = Inr True \<and>
   reply_nchilds (snd (snd (ProcessBrowserRequest sample_externals
          ((sample_request [])\<lparr>req_first := 1, req_number := 1\<rparr>) empty_reply sample_state))) = 3 \<and>
   int (length (reply_nodes (snd (snd (ProcessBrowserRequest sample_externals
          ((sample_request [])\<lparr>req_first := 1, req_number := 1\<rparr>) empty_reply sample_state))))) -
     int (length (reply_nodes empty_reply)) = 1"
proof -
  let ?request = "(sample_request [])\<lparr>req_first := 1, req_number := 1\<rparr>"
  have h1: "0 \<le> sint (req_first ?request)" and h2: "0 \<le> sint (req_number ?request)"
    by simp_all
  have h3: "fst (ProcessBrowserRequest sample_externals ?request empty_reply sample_state) = Inr True"
    by code_simp
  have t: "reply_nchilds (snd (snd (ProcessBrowserRequest sample_externals ?request empty_reply
             sample_state))) = 3" by code_simp
  from pagination [OF h1 h2, of sample_state sample_externals empty_reply] h3
  have "int (length (reply_nodes (snd (snd (ProcessBrowserRequest sample_externals ?request empty_reply
          sample_state))))) - int (length (reply_nodes empty_reply)) =
        (if 0 < sint (req_number ?request)
         then min (sint (req_number ?request)) (max 0 (3 - sint (req_first ?request)))
         else max 0 (3 - sint (req_first ?request)))"
    unfolding t by blast
  then have "int (length (reply_nodes (snd (snd (ProcessBrowserRequest sample_externals ?request
          empty_reply sample_state))))) - int (length (reply_nodes empty_reply)) = 1"
    by simp
  with h1 h2 h3 t show ?thesis by blast
qed

theorem pagination_counterexample:
  "0 \<le> sint (req_first ((sample_request [])\<lparr>req_first := 1, req_number := 2147483647\<rparr>)) \<and>
   0 \<le> sint (req_number ((sample_request [])\<lparr>req_first := 1, req_number := 2147483647\<rparr>)) \<and>
   fst (ProcessBrowserRequest sample_externals
          ((sample_request [])\<lparr>req_first := 1, req_number := 2147483647\<rparr>) empty_reply sample_state) =
     Inl SignedOverflow \<and>
   reply_nodes (snd (snd (ProcessBrowserRequest sample_externals
          ((sample_request [])\<lparr>req_first := 1, req_number := 2147483647\<rparr>) empty_reply sample_state))) = []"
  by code_simp

text \<open>
  C3. The listing loop tests \<^verbatim>\<open>id++ > 10000\<close> after it has stored the item, so it stops
  only once 10 002 items are stored. Here the code is run on a container with exactly
  10 001 children: all 10 001 items are in the raw snapshot and the completeness flag is
  true, where the claim has the flag false and the 10 001st child absent.
\<close>

theorem cap_admits_10001_children:
  "fLastItems (fst (snd (ProcessBrowserRequest sample_externals (sample_request []) empty_reply
      (SetTopElement (Some (wide_element 10001)) initial_state)))) =
     replicate 10001 (RItem ''f'' False False) \<and>
   fLastAllChilds (fst (snd (ProcessBrowserRequest sample_externals (sample_request []) empty_reply
      (SetTopElement (Some (wide_element 10001)) initial_state)))) = True"
proof -
  let ?s = "SetTopElement (Some (wide_element 10001)) initial_state"
  let ?iter = "replicate 10001 (RLevel ''f'' None (RItem ''f'' False False))"
  have path: "DecomposePath (req_path (sample_request [])) True ?s = []"
    by (simp add: DecomposePath_def sample_request_def SetTopElement_def SetWorkingDirectory_def
        SetWorkingPath_def ResetLastRequest_def)
  have a: "DecomposePath (req_path (sample_request [])) True ?s \<noteq> fLastPath ?s \<or> fLastElement ?s = None"
    by (simp add: SetTopElement_def SetWorkingDirectory_def SetWorkingPath_def ResetLastRequest_def)
  have b: "fst (GetSubElement (DecomposePath (req_path (sample_request [])) True ?s) ?s) =
           Inr (Some (wide_element 10001))"
    unfolding path by (simp add: GetSubElement_eq setters_frame)
  have c: "GetChildsIter (wide_element 10001) = Some ?iter"
    by (simp add: wide_element_def)
  from ProcessBrowserRequest_fresh_listing [OF a b c, of sample_externals empty_reply]
  show ?thesis by simp
qed

text \<open>
  C4. With the sort key \<open>unsorted\<close> the items are neither grouped nor sorted, and the
  reverse step still applies: in every reply produced, the sorted sequence is the raw item
  list in its exact order when \<open>reverse\<close> is false, and that list exactly reversed when
  \<open>reverse\<close> is true. (The memo's sorted array is assumed consistent with its recorded
  method and flag, as every operation leaves it: lemma \<open>sorted_consistent_kept\<close>.)
\<close>

theorem unsorted_order:
  assumes "sorted_consistent ext s"
    and "fst (ProcessBrowserRequest ext request reply s) = Inr True"
    and "req_sort request = ''unsorted''"
  shows "fLastSortedItems (fst (snd (ProcessBrowserRequest ext request reply s))) =
         (if req_reverse request
          then rev (fLastItems (fst (snd (ProcessBrowserRequest ext request reply s))))
          else fLastItems (fst (snd (ProcessBrowserRequest ext request reply s))))"
proof -
  have s': "fst (snd (ProcessBrowserRequest ext request reply s)) = after_sort ext request s"
    using ProcessBrowserRequest_success(1) [OF ProcessBrowserRequest_collapse [OF assms(2)]] .
  have "fLastSortedItems (after_sort ext request s) =
        order_items ext (req_sort request) (req_reverse request) (fLastItems (after_list request s))"
    unfolding after_sort_def
    using sorted_consistent_after_list [OF assms(1)] by (rule sorted_after_sort)
  then show ?thesis
    unfolding s' by (simp add: assms(3) order_items_unsorted after_sort_def sort_childs_frame)
qed

theorem unsorted_order_witness:
  "sorted_consistent sample_externals sample_state \<and>
   fst (ProcessBrowserRequest sample_externals ((sample_request ''src'')\<lparr>req_sort := ''unsorted''\<rparr>)
         empty_reply sample_state) = Inr True \<and>
   req_sort ((sample_request ''src'')\<lparr>req_sort := ''unsorted''\<rparr>) = ''unsorted'' \<and>
   fLastItems (fst (snd (ProcessBrowserRequest sample_externals
         ((sample_request ''src'')\<lparr>req_sort := ''unsorted''\<rparr>) empty_reply sample_state))) =
     [RItem ''lib'' True False, RItem ''util'' False False] \<and>
   fLastSortedItems (fst (snd (ProcessBrowserRequest sample_externals
         ((sample_request ''src'')\<lparr>req_sort := ''unsorted''\<rparr>) empty_reply sample_state))) =
     [RItem ''lib'' True False, RItem ''util'' False False]"
proof -
  have h1: "sorted_consistent sample_externals sample_state" by code_simp
  have h2: "fst (ProcessBrowserRequest sample_externals ((sample_request ''src'')\<lparr>req_sort := ''unsorted''\<rparr>)
         empty_reply sample_state) = Inr True" by code_simp
  have h3: "req_sort ((sample_request ''src'')\<lparr>req_sort := ''unsorted''\<rparr>) = ''unsorted''" by simp
  have r: "req_reverse ((sample_request ''src'')\<lparr>req_sort := ''unsorted''\<rparr>) = False"
    by (simp add: sample_request_def)
  have i: "fLastItems (fst (snd (ProcessBrowserRequest sample_externals
         ((sample_request ''src'')\<lparr>req_sort := ''unsorted''\<rparr>) empty_reply sample_state))) =
     [RItem ''lib'' True False, RItem ''util'' False False]" by code_simp
  from unsorted_order [OF h1 h2 h3] have
    "fLastSortedItems (fst (snd (ProcessBrowserRequest sample_externals
         ((sample_request ''src'')\<lparr>req_sort := ''unsorted''\<rparr>) empty_reply sample_state))) =
     [RItem ''lib'' True False, RItem ''util'' False False]"
    unfolding r i by simp
  with h1 h2 h3 i show ?thesis by blast
qed

theorem unsorted_order_counterexample:
  "req_sort ((sample_request ''src'')\<lparr>req_sort := ''unsorted'', req_reverse := True\<rparr>) = ''unsorted'' \<and>
   fLastItems (fst (snd (ProcessBrowserRequest sample_externals
         ((sample_request ''src'')\<lparr>req_sort := ''unsorted'', req_reverse := True\<rparr>) empty_reply
         sample_state))) = [RItem ''lib'' True False, RItem ''util'' False False] \<and>
   fLastSortedItems (fst (snd (ProcessBrowserRequest sample_externals
         ((sample_request ''src'')\<lparr>req_sort := ''unsorted'', req_reverse := True\<rparr>) empty_reply
         sample_state))) = [RItem ''util'' False False, RItem ''lib'' True False]"
  by code_simp

text \<open>
  C5. A negative \<open>number\<close> whose sum with \<open>first\<close> is representable as an \<^verbatim>\<open>int\<close>
  gives an empty page: the sum is representable whenever \<open>first\<close> is non-negative, a page
  is then returned when the path resolves to an element with a child iterator and the regex
  is valid, and every page returned has no item. (Where both are negative and the sum is
  not representable, \<^verbatim>\<open>request.first + request.number\<close> overflows and nothing is
  stated.) A negative \<open>first\<close> is not rejected: every index passes
  \<^verbatim>\<open>id >= request.first\<close>, so the page holds all the visible items when \<open>number\<close> is
  0, and the first \<open>first + number\<close> of them (none when that is not positive) when
  \<open>number\<close> is positive, the sum being representable then.
\<close>

theorem negative_window:
  "(fst (ProcessBrowserRequest ext request reply s) = Inr True \<and> sint (req_number request) < 0 \<and>
    sum_in_range request \<longrightarrow>
      reply_nodes (snd (snd (ProcessBrowserRequest ext request reply s))) = reply_nodes reply) \<and>
   (sint (req_number request) < 0 \<and> 0 \<le> sint (req_first request) \<longrightarrow> sum_in_range request) \<and>
   (sint (req_first request) < 0 \<and> 0 < sint (req_number request) \<longrightarrow> sum_in_range request) \<and>
   (fst (locate_element (DecomposePath (req_path request) True s) s) = Inr True \<and>
    fst (list_childs (after_locate request s)) = Inr True \<and>
    regex_valid ext (req_regex request) \<and>
    (req_number request = 0 \<or> sum_in_range request) \<longrightarrow>
      fst (ProcessBrowserRequest ext request reply s) = Inr True) \<and>
   (fst (ProcessBrowserRequest ext request reply s) = Inr True \<and> sint (req_first request) < 0 \<and>
    req_number request = 0 \<longrightarrow>
      reply_nodes (snd (snd (ProcessBrowserRequest ext request reply s))) =
        reply_nodes reply @
        filter (visible ext request) (fLastSortedItems (fst (snd (ProcessBrowserRequest ext request reply s))))) \<and>
   (fst (ProcessBrowserRequest ext request reply s) = Inr True \<and> sint (req_first request) < 0 \<and>
    0 < sint (req_number request) \<longrightarrow>
      reply_nodes (snd (snd (ProcessBrowserRequest ext request reply s))) =
        reply_nodes reply @
        take (nat (sint (req_first request) + sint (req_number request)))
          (filter (visible ext request)
             (fLastSortedItems (fst (snd (ProcessBrowserRequest ext request reply s))))))"
proof -
  let ?s' = "fst (snd (ProcessBrowserRequest ext request reply s))"
  let ?reply' = "snd (snd (ProcessBrowserRequest ext request reply s))"
  let ?vis = "filter (visible ext request) (fLastSortedItems ?s')"
  have nodes: "reply_nodes ?reply' = reply_nodes reply @ page_of request 0 ?vis"
    if "fst (ProcessBrowserRequest ext request reply s) = Inr True"
    by (subst ProcessBrowserRequest_success(3) [OF ProcessBrowserRequest_collapse [OF that]]) simp
  have lower: "- (2 ^ 31) \<le> sint w" and upper: "sint w < 2 ^ 31" for w :: "32 word"
    using sint_ge [of w] sint_lt [of w] by simp_all
  have range1: "sum_in_range request"
    if "sint (req_number request) < 0" "0 \<le> sint (req_first request)"
    using that lower [of "req_number request"] upper [of "req_first request"]
    by (simp add: sum_in_range_def)
  have range2: "sum_in_range request"
    if "sint (req_first request) < 0" "0 < sint (req_number request)"
    using that lower [of "req_first request"] upper [of "req_number request"]
    by (simp add: sum_in_range_def)
  have returned: "fst (ProcessBrowserRequest ext request reply s) = Inr True"
    if "fst (locate_element (DecomposePath (req_path request) True s) s) = Inr True"
      "fst (list_childs (after_locate request s)) = Inr True"
      "regex_valid ext (req_regex request)"
      "req_number request = 0 \<or> sum_in_range request"
    using that by (simp add: ProcessBrowserRequest_eq fill_reply_returns)
  show ?thesis
    using nodes range1 range2 returned
    by (auto simp: page_of_negative_number page_of_negative_first sint_number_zero)
qed

theorem negative_window_witness:
  "fst (locate_element (DecomposePath (req_path ((sample_request [])\<lparr>req_number := - 1\<rparr>)) True
          sample_state) sample_state) = Inr True \<and>
   fst (list_childs (after_locate ((sample_request [])\<lparr>req_number := - 1\<rparr>) sample_state)) = Inr True \<and>
   regex_valid sample_externals (req_regex ((sample_request [])\<lparr>req_number := - 1\<rparr>)) \<and>
   sint (req_number ((sample_request [])\<lparr>req_number := - 1\<rparr>)) < 0 \<and>
   0 \<le> sint (req_first ((sample_request [])\<lparr>req_number := - 1\<rparr>)) \<and>
   sum_in_range ((sample_request [])\<lparr>req_number := - 1\<rparr>) \<and>
   fst (ProcessBrowserRequest sample_externals ((sample_request [])\<lparr>req_number := - 1\<rparr>) empty_reply
         sample_state) = Inr True \<and>
   reply_nchilds (snd (snd (ProcessBrowserRequest sample_externals
         ((sample_request [])\<lparr>req_number := - 1\<rparr>) empty_reply sample_state))) = 3 \<and>
   reply_nodes (snd (snd (ProcessBrowserRequest sample_externals
         ((sample_request [])\<lparr>req_number := - 1\<rparr>) empty_reply sample_state))) = []"
proof -
  let ?request = "(sample_request [])\<lparr>req_number := - 1\<rparr>"
  have l1: "fst (locate_element (DecomposePath (req_path ?request) True sample_state) sample_state) =
              Inr True" by code_simp
  have l2: "fst (list_childs (after_locate ?request sample_state)) = Inr True" by code_simp
  have v: "regex_valid sample_externals (req_regex ?request)"
    by (simp add: sample_externals_def sample_request_def)
  have h2: "sint (req_number ?request) < 0" by simp
  have h3: "0 \<le> sint (req_first ?request)" by (simp add: sample_request_def)
  note w = negative_window [of sample_externals ?request empty_reply sample_state]
  from w h2 h3 have r: "sum_in_range ?request" by blast
  from w l1 l2 v r have h1: "fst (ProcessBrowserRequest sample_externals ?request empty_reply
         sample_state) = Inr True" by blast
  have n: "reply_nchilds (snd (snd (ProcessBrowserRequest sample_externals ?request empty_reply
         sample_state))) = 3" by code_simp
  have e: "reply_nodes empty_reply = []" by (simp add: empty_reply_def)
  from w h1 h2 r
  have "reply_nodes (snd (snd (ProcessBrowserRequest sample_externals ?request empty_reply
         sample_state))) = reply_nodes empty_reply" by blast
  with l1 l2 v h1 h2 h3 r n e show ?thesis by simp
qed

theorem negative_window_counterexample:
  "sint (req_first ((sample_request [])\<lparr>req_first := - 1\<rparr>)) < 0 \<and>
   fst (ProcessBrowserRequest sample_externals ((sample_request [])\<lparr>req_first := - 1\<rparr>) empty_reply
         sample_state) = Inr True \<and>
   reply_nodes (snd (snd (ProcessBrowserRequest sample_externals
         ((sample_request [])\<lparr>req_first := - 1\<rparr>) empty_reply sample_state))) =
     [RItem ''src'' True False, RItem ''a.txt'' False False, RItem ''b.txt'' False False]"
proof -
  have "sint (req_first ((sample_request [])\<lparr>req_first := - 1\<rparr>)) < 0" by simp
  moreover have "fst (ProcessBrowserRequest sample_externals ((sample_request [])\<lparr>req_first := - 1\<rparr>)
         empty_reply sample_state) = Inr True" by code_simp
  moreover have "reply_nodes (snd (snd (ProcessBrowserRequest sample_externals
         ((sample_request [])\<lparr>req_first := - 1\<rparr>) empty_reply sample_state))) =
     [RItem ''src'' True False, RItem ''a.txt'' False False, RItem ''b.txt'' False False]" by code_simp
  ultimately show ?thesis by blast
qed

text \<open>
  C6. When the requested path differs from the memoized path (or there is no last element),
  the processor attempts the resolution first and resets the memo only when an element was
  found: the memo then holds the new path and element and nothing else. When the
  resolution fails, the request returns false with the reply unchanged and every member
  but the cache exactly as before: the memo of the previous path is kept, and the cache
  keeps the entries stored for the components that did resolve.
\<close>

theorem failed_resolution_keeps_memo:
  assumes "DecomposePath (req_path request) True s \<noteq> fLastPath s \<or> fLastElement s = None"
  shows "(fst (GetSubElement (DecomposePath (req_path request) True s) s) = Inr None \<longrightarrow>
            ProcessBrowserRequest ext request reply s =
              (Inr False,
               s\<lparr>fCache := fCache (snd (GetSubElement (DecomposePath (req_path request) True s) s))\<rparr>,
               reply)) \<and>
         (\<forall>elem. fst (GetSubElement (DecomposePath (req_path request) True s) s) = Inr (Some elem) \<longrightarrow>
            after_locate request s =
              (ResetLastRequest (snd (GetSubElement (DecomposePath (req_path request) True s) s)))
                \<lparr>fLastPath := DecomposePath (req_path request) True s, fLastElement := Some elem\<rparr>)"
proof (intro conjI allI impI)
  let ?path = "DecomposePath (req_path request) True s"
  assume "fst (GetSubElement ?path s) = Inr None"
  with assms have "locate_element ?path s = (Inr False, snd (GetSubElement ?path s))"
    by (simp add: locate_element_cases)
  then have "ProcessBrowserRequest ext request reply s = (Inr False, snd (GetSubElement ?path s), reply)"
    by (simp add: ProcessBrowserRequest_eq after_locate_def)
  then show "ProcessBrowserRequest ext request reply s =
      (Inr False, s\<lparr>fCache := fCache (snd (GetSubElement ?path s))\<rparr>, reply)"
    using GetSubElement_frame [of ?path s] by simp
next
  let ?path = "DecomposePath (req_path request) True s"
  fix elem assume "fst (GetSubElement ?path s) = Inr (Some elem)"
  with assms show "after_locate request s =
      (ResetLastRequest (snd (GetSubElement ?path s)))\<lparr>fLastPath := ?path, fLastElement := Some elem\<rparr>"
    by (simp add: after_locate_def locate_element_cases)
qed

theorem failed_resolution_keeps_memo_witness:
  "DecomposePath (req_path (sample_request ''src/nope'')) True sample_state_src = [''src'', ''nope''] \<and>
   fLastPath sample_state_src = [''src''] \<and>
   fst (GetSubElement [''src'', ''nope''] sample_state_src) = Inr None \<and>
   ProcessBrowserRequest sample_externals (sample_request ''src/nope'') empty_reply sample_state_src =
     (Inr False, sample_state_src, empty_reply)"
proof -
  have p: "DecomposePath (req_path (sample_request ''src/nope'')) True sample_state_src = [''src'', ''nope'']"
    by code_simp
  have l: "fLastPath sample_state_src = [''src'']" by code_simp
  have g: "fst (GetSubElement [''src'', ''nope''] sample_state_src) = Inr None" by code_simp
  have c: "fCache (snd (GetSubElement [''src'', ''nope''] sample_state_src)) = fCache sample_state_src"
    by code_simp
  have h: "DecomposePath (req_path (sample_request ''src/nope'')) True sample_state_src \<noteq>
             fLastPath sample_state_src \<or> fLastElement sample_state_src = None"
    unfolding p l by simp
  from failed_resolution_keeps_memo [OF h, of sample_externals empty_reply] g
  have "ProcessBrowserRequest sample_externals (sample_request ''src/nope'') empty_reply sample_state_src =
     (Inr False, sample_state_src\<lparr>fCache := fCache sample_state_src\<rparr>, empty_reply)"
    unfolding p c by blast
  with p l g show ?thesis by simp
qed

theorem failed_resolution_keeps_memo_counterexample:
  "fLastPath sample_state_src = [''src''] \<and>
   DecomposePath (req_path (sample_request ''nope'')) True sample_state_src = [''nope''] \<and>
   fst (ProcessBrowserRequest sample_externals (sample_request ''nope'') empty_reply sample_state_src) =
     Inr False \<and>
   fLastPath (fst (snd (ProcessBrowserRequest sample_externals (sample_request ''nope'') empty_reply
     sample_state_src))) = [''src''] \<and>
   fLastElement (fst (snd (ProcessBrowserRequest sample_externals (sample_request ''nope'') empty_reply
     sample_state_src))) = Some sample_src \<and>
   fLastItems (fst (snd (ProcessBrowserRequest sample_externals (sample_request ''nope'') empty_reply
     sample_state_src))) = [RItem ''lib'' True False, RItem ''util'' False False]"
  by code_simp

text \<open>
  C7. A request whose regex is malformed never succeeds and leaves the reply as it was.
  The regex is compiled after resolution, listing and sorting: the regex error reaches the
  caller exactly when the path resolved to an element that has a child iterator (otherwise
  the request has already returned false, or failed, before the regex is looked at), and
  the state then keeps the updates of those three steps: the cache entries stored by the
  resolution, and a memo for the requested path, which a retry with a corrected regex
  reuses.
\<close>

theorem malformed_regex:
  assumes "\<not> regex_valid ext (req_regex request)"
  shows "fst (ProcessBrowserRequest ext request reply s) \<noteq> Inr True \<and>
         snd (snd (ProcessBrowserRequest ext request reply s)) = reply \<and>
         (fst (ProcessBrowserRequest ext request reply s) = Inl RegexError \<longleftrightarrow>
            fst (locate_element (DecomposePath (req_path request) True s) s) = Inr True \<and>
            fst (list_childs (after_locate request s)) = Inr True) \<and>
         (fst (ProcessBrowserRequest ext request reply s) = Inl RegexError \<longrightarrow>
            fst (snd (ProcessBrowserRequest ext request reply s)) = after_sort ext request s \<and>
            fLastPath (fst (snd (ProcessBrowserRequest ext request reply s))) =
              DecomposePath (req_path request) True s \<and>
            fLastElement (fst (snd (ProcessBrowserRequest ext request reply s))) \<noteq> None)"
proof -
  let ?path = "DecomposePath (req_path request) True s"
  have fr: "fill_reply ext request reply t = (Inl RegexError, reply)" for t
    using assms by (simp add: fill_reply_def)
  have no1: "fst (locate_element ?path s) \<noteq> Inl RegexError"
    using resolve_loop_no_regex
    by (auto simp: locate_element_cases GetSubElement_eq split: sum.splits option.splits if_splits)
  have no2: "fst (list_childs (after_locate request s)) \<noteq> Inl RegexError"
    by (auto simp: list_childs_def split: option.splits prod.splits)
  show ?thesis
  proof (cases "fst (locate_element ?path s) = Inr True \<and>
                fst (list_childs (after_locate request s)) = Inr True")
    case True
    then have pbr: "ProcessBrowserRequest ext request reply s =
        (Inl RegexError, after_sort ext request s, reply)"
      by (simp add: ProcessBrowserRequest_eq fr)
    from True have "fLastPath (after_locate request s) = ?path"
      and "fLastElement (after_locate request s) \<noteq> None"
      unfolding after_locate_def by (simp_all add: locate_element_success)
    then have "fLastPath (after_sort ext request s) = ?path"
      and "fLastElement (after_sort ext request s) \<noteq> None"
      by (simp_all add: after_sort_def after_list_def sort_childs_frame list_childs_frame)
    with True pbr show ?thesis by simp
  next
    case False
    with no1 no2 show ?thesis
      by (auto simp: ProcessBrowserRequest_eq)
  qed
qed

theorem malformed_regex_witness:
  "\<not> regex_valid sample_externals (req_regex ((sample_request ''src'')\<lparr>req_regex := ''[''\<rparr>)) \<and>
   fst (ProcessBrowserRequest sample_externals ((sample_request ''src'')\<lparr>req_regex := ''[''\<rparr>)
          empty_reply sample_state) = Inl RegexError \<and>
   snd (snd (ProcessBrowserRequest sample_externals ((sample_request ''src'')\<lparr>req_regex := ''[''\<rparr>)
          empty_reply sample_state)) = empty_reply \<and>
   fLastPath (fst (snd (ProcessBrowserRequest sample_externals
          ((sample_request ''src'')\<lparr>req_regex := ''[''\<rparr>) empty_reply sample_state))) =
     DecomposePath (req_path ((sample_request ''src'')\<lparr>req_regex := ''[''\<rparr>)) True sample_state"
proof -
  have h: "\<not> regex_valid sample_externals (req_regex ((sample_request ''src'')\<lparr>req_regex := ''[''\<rparr>))"
    by (simp add: sample_externals_def)
  have r: "fst (ProcessBrowserRequest sample_externals ((sample_request ''src'')\<lparr>req_regex := ''[''\<rparr>)
          empty_reply sample_state) = Inl RegexError" by code_simp
  from malformed_regex [OF h, of empty_reply sample_state] h r show ?thesis by blast
qed

theorem malformed_regex_counterexample:
  "\<not> regex_valid sample_externals (req_regex ((sample_request ''src'')\<lparr>req_regex := ''[''\<rparr>)) \<and>
   fCache sample_state = [] \<and> fLastPath sample_state = [] \<and> fLastItems sample_state = [] \<and>
   fst (ProcessBrowserRequest sample_externals ((sample_request ''src'')\<lparr>req_regex := ''[''\<rparr>)
          empty_reply sample_state) = Inl RegexError \<and>
   fCache (fst (snd (ProcessBrowserRequest sample_externals
          ((sample_request ''src'')\<lparr>req_regex := ''[''\<rparr>) empty_reply sample_state))) =
     [([''src''], sample_src)] \<and>
   fLastPath (fst (snd (ProcessBrowserRequest sample_externals
          ((sample_request ''src'')\<lparr>req_regex := ''[''\<rparr>) empty_reply sample_state))) = [''src''] \<and>
   fLastItems (fst (snd (ProcessBrowserRequest sample_externals
          ((sample_request ''src'')\<lparr>req_regex := ''[''\<rparr>) empty_reply sample_state))) =
     [RItem ''lib'' True False, RItem ''util'' False False]"
  by code_simp

text \<open>
  C8. In every reply that is produced: when \<open>hidden\<close> is false no hidden item is on the
  page, whatever the regex and the sort settings; the reported total counts exactly the
  items of the sorted sequence that are not hidden (or \<open>hidden\<close> is set) and that are
  folders, or match the regex, or face an empty regex; and a folder that passes the hidden
  test is never dropped by the regex: it is counted, and it is on the page when the whole
  list is requested (\<open>first = 0\<close>, \<open>number = 0\<close>).
\<close>

theorem filter_composition:
  assumes "fst (ProcessBrowserRequest ext request reply s) = Inr True"
  shows "(\<not> req_hidden request \<longrightarrow>
           (\<forall>item \<in> set (drop (length (reply_nodes reply))
                            (reply_nodes (snd (snd (ProcessBrowserRequest ext request reply s))))).
              \<not> IsHidden item)) \<and>
         reply_nchilds (snd (snd (ProcessBrowserRequest ext request reply s))) =
           int (length (filter
             (\<lambda>item. (req_hidden request \<or> \<not> IsHidden item) \<and>
                     (IsFolder item \<or> req_regex request = [] \<or>
                      regex_match ext (GetName item) (req_regex request)))
             (fLastSortedItems (fst (snd (ProcessBrowserRequest ext request reply s)))))) \<and>
         (\<forall>item \<in> set (fLastSortedItems (fst (snd (ProcessBrowserRequest ext request reply s)))).
            IsFolder item \<and> (req_hidden request \<or> \<not> IsHidden item) \<and>
            req_first request = 0 \<and> req_number request = 0 \<longrightarrow>
            item \<in> set (reply_nodes (snd (snd (ProcessBrowserRequest ext request reply s)))))"
proof -
  let ?s' = "fst (snd (ProcessBrowserRequest ext request reply s))"
  let ?reply' = "snd (snd (ProcessBrowserRequest ext request reply s))"
  let ?vis = "filter (visible ext request) (fLastSortedItems ?s')"
  note succ = ProcessBrowserRequest_success [OF ProcessBrowserRequest_collapse [OF assms]]
  have nodes: "reply_nodes ?reply' = reply_nodes reply @ page_of request 0 ?vis"
    by (subst succ(3)) simp
  have total: "reply_nchilds ?reply' = int (length ?vis)"
    by (subst succ(3)) simp
  have page_sub: "set (page_of request 0 ?vis) \<subseteq> set ?vis"
    by (rule page_of_subset)
  have vis_eq: "visible ext request =
      (\<lambda>item. (req_hidden request \<or> \<not> IsHidden item) \<and>
              (IsFolder item \<or> req_regex request = [] \<or>
               regex_match ext (GetName item) (req_regex request)))"
    by (rule ext) (auto simp: visible_def)
  show ?thesis
  proof (intro conjI impI ballI)
    fix item
    assume "\<not> req_hidden request"
      and "item \<in> set (drop (length (reply_nodes reply)) (reply_nodes ?reply'))"
    then have "item \<in> set ?vis" using page_sub by (auto simp: nodes)
    with \<open>\<not> req_hidden request\<close> show "\<not> IsHidden item" by (simp add: visible_def)
  next
    show "reply_nchilds ?reply' =
           int (length (filter
             (\<lambda>item. (req_hidden request \<or> \<not> IsHidden item) \<and>
                     (IsFolder item \<or> req_regex request = [] \<or>
                      regex_match ext (GetName item) (req_regex request)))
             (fLastSortedItems ?s')))"
      unfolding total vis_eq ..
  next
    fix item
    assume "item \<in> set (fLastSortedItems ?s')"
      and h: "IsFolder item \<and> (req_hidden request \<or> \<not> IsHidden item) \<and>
            req_first request = 0 \<and> req_number request = 0"
    then have "item \<in> set ?vis" by (simp add: visible_def)
    moreover from h have "page_of request 0 ?vis = ?vis" by (simp add: page_of_from_start)
    ultimately show "item \<in> set (reply_nodes ?reply')" by (simp add: nodes)
  qed
qed

theorem filter_composition_witness:
  "fst (ProcessBrowserRequest sample_externals ((sample_request [])\<lparr>req_regex := ''b.txt''\<rparr>)
         empty_reply sample_state) = Inr True \<and>
   snd (snd (ProcessBrowserRequest sample_externals ((sample_request [])\<lparr>req_regex := ''b.txt''\<rparr>)
         empty_reply sample_state)) =
     \<lparr>reply_path = [], reply_first = 0, reply_nchilds = 2,
      reply_nodes = [RItem ''src'' True False, RItem ''b.txt'' False False]\<rparr> \<and>
   reply_nchilds (snd (snd (ProcessBrowserRequest sample_externals
         ((sample_request [])\<lparr>req_regex := ''b.txt''\<rparr>) empty_reply sample_state))) =
     int (length (filter
       (\<lambda>item. (req_hidden ((sample_request [])\<lparr>req_regex := ''b.txt''\<rparr>) \<or> \<not> IsHidden item) \<and>
               (IsFolder item \<or> req_regex ((sample_request [])\<lparr>req_regex := ''b.txt''\<rparr>) = [] \<or>
                regex_match sample_externals (GetName item)
                  (req_regex ((sample_request [])\<lparr>req_regex := ''b.txt''\<rparr>))))
       (fLastSortedItems (fst (snd (ProcessBrowserRequest sample_externals
         ((sample_request [])\<lparr>req_regex := ''b.txt''\<rparr>) empty_reply sample_state))))))"
proof -
  have h: "fst (ProcessBrowserRequest sample_externals ((sample_request [])\<lparr>req_regex := ''b.txt''\<rparr>)
         empty_reply sample_state) = Inr True" by code_simp
  have r: "snd (snd (ProcessBrowserRequest sample_externals ((sample_request [])\<lparr>req_regex := ''b.txt''\<rparr>)
         empty_reply sample_state)) =
     \<lparr>reply_path = [], reply_first = 0, reply_nchilds = 2,
      reply_nodes = [RItem ''src'' True False, RItem ''b.txt'' False False]\<rparr>" by code_simp
  from filter_composition [OF h] h r show ?thesis by blast
qed

text \<open>
  C9. Every operation that leaves the top element as it is preserves the resolution-cache
  invariant: if every entry of the cache holds the element that resolving its key against
  an empty cache yields (and the cache has the shape GetSubElement gives it), the same is
  true after GetSubElement, GetElementFromTop, GetElement, ProcessBrowserRequest,
  ProcessRequest, ResetLastRequest, SetWorkingPath and SetWorkingDirectory. SetTopElement
  replaces the top element and keeps the cache: it preserves the invariant when it is
  given the top element already set, or when the cache is empty, and not in general.
\<close>

theorem cache_invariant_preserved:
  assumes "cache_sound s"
  shows "cache_sound (snd (GetSubElement path s)) \<and>
         cache_sound (snd (GetElementFromTop path s)) \<and>
         cache_sound (snd (RBrowserData_GetElement strpath s)) \<and>
         cache_sound (fst (snd (ProcessBrowserRequest ext request reply s))) \<and>
         cache_sound (snd (ProcessRequest ext request s)) \<and>
         cache_sound (ResetLastRequest s) \<and>
         cache_sound (SetWorkingPath path s) \<and>
         cache_sound (SetWorkingDirectory strpath s) \<and>
         (elem = fTopElement s \<or> fCache s = [] \<longrightarrow> cache_sound (SetTopElement elem s)) \<and>
         fCache (SetTopElement elem s) = fCache s"
proof (intro conjI impI)
  show "cache_sound (snd (GetSubElement path s))"
    using assms by (rule GetSubElement_sound)
  show "cache_sound (snd (GetElementFromTop path s))"
    unfolding GetElementFromTop_def using assms by (rule GetSubElement_sound)
  show "cache_sound (snd (RBrowserData_GetElement strpath s))"
    unfolding RBrowserData_GetElement_def using assms by (rule GetSubElement_sound)
  show "cache_sound (fst (snd (ProcessBrowserRequest ext request reply s)))"
    using assms by (rule ProcessBrowserRequest_sound)
  show "cache_sound (snd (ProcessRequest ext request s))"
    unfolding ProcessRequest_state using assms by (rule ProcessBrowserRequest_sound)
  show "cache_sound (ResetLastRequest s)"
    using assms cache_sound_cong [of "ResetLastRequest s" s] by (simp add: ResetLastRequest_frame)
  show "cache_sound (SetWorkingPath path s)"
    using assms cache_sound_cong [of "SetWorkingPath path s" s] by (simp add: setters_frame)
  show "cache_sound (SetWorkingDirectory strpath s)"
    using assms cache_sound_cong [of "SetWorkingDirectory strpath s" s] by (simp add: setters_frame)
  show "fCache (SetTopElement elem s) = fCache s"
    by (simp add: setters_frame)
next
  assume "elem = fTopElement s \<or> fCache s = []"
  then show "cache_sound (SetTopElement elem s)"
  proof
    assume "elem = fTopElement s"
    with assms show ?thesis
      using cache_sound_cong [of "SetTopElement elem s" s] by (simp add: setters_frame)
  next
    assume "fCache s = []"
    then show ?thesis by (intro cache_sound_empty) (simp add: setters_frame)
  qed
qed

theorem cache_invariant_preserved_witness:
  "cache_sound sample_state \<and>
   map fst (fCache (snd (GetSubElement [''src'', ''lib''] sample_state))) = [[''src''], [''src'', ''lib'']] \<and>
   cache_sound (snd (GetSubElement [''src'', ''lib''] sample_state)) \<and>
   cache_sound (fst (snd (ProcessBrowserRequest sample_externals (sample_request ''src/util'')
      empty_reply sample_state))) \<and>
   fCache sample_state = [] \<and>
   cache_sound (SetTopElement (Some sample_src) sample_state)"
proof -
  have h: "cache_sound sample_state" by code_simp
  have c: "map fst (fCache (snd (GetSubElement [''src'', ''lib''] sample_state))) =
             [[''src''], [''src'', ''lib'']]" by code_simp
  have e: "fCache sample_state = []" by code_simp
  from cache_invariant_preserved [OF h, of "[''src'', ''lib'']" _ sample_externals
      "sample_request ''src/util''" empty_reply "Some sample_src"] h c e
  show ?thesis by blast
qed

theorem cache_invariant_preserved_counterexample:
  "cache_sound (snd (GetSubElement [''src'', ''lib''] sample_state)) \<and>
   fCache (SetTopElement (Some sample_src) (snd (GetSubElement [''src'', ''lib''] sample_state))) =
     [([''src''], sample_src), ([''src'', ''lib''], sample_lib)] \<and>
   fst (GetSubElement [''src'']
         ((SetTopElement (Some sample_src) (snd (GetSubElement [''src'', ''lib''] sample_state)))
            \<lparr>fCache := []\<rparr>)) = Inr None \<and>
   \<not> cache_sound (SetTopElement (Some sample_src) (snd (GetSubElement [''src'', ''lib''] sample_state)))"
proof -
  let ?s = "snd (GetSubElement [''src'', ''lib''] sample_state)"
  have "cache_sound sample_state" by (rule cache_sound_empty) code_simp
  then have a: "cache_sound ?s" by (rule GetSubElement_sound)
  have c: "fCache (SetTopElement (Some sample_src) ?s) =
             [([''src''], sample_src), ([''src'', ''lib''], sample_lib)]" by code_simp
  have g: "fst (GetSubElement [''src''] ((SetTopElement (Some sample_src) ?s)\<lparr>fCache := []\<rparr>)) = Inr None"
    by code_simp
  have "\<not> cache_sound (SetTopElement (Some sample_src) ?s)"
  proof
    assume "cache_sound (SetTopElement (Some sample_src) ?s)"
    then have "\<forall>entry \<in> set (fCache (SetTopElement (Some sample_src) ?s)).
        fst (GetSubElement (fst entry) ((SetTopElement (Some sample_src) ?s)\<lparr>fCache := []\<rparr>)) =
        Inr (Some (snd entry))"
      by (simp add: cache_sound_def)
    then have "fst (GetSubElement [''src''] ((SetTopElement (Some sample_src) ?s)\<lparr>fCache := []\<rparr>)) =
        Inr (Some sample_src)"
      unfolding c by simp
    with g show False by simp
  qed
  with a c g show ?thesis by blast
qed

text \<open>
  C10. SetTopElement, SetWorkingDirectory and SetWorkingPath clear the whole last-request
  memo (last path, last element, raw items, sorted items, sort method, completeness flag),
  and the state they leave does not depend on what the memo held before: whatever listing or
  sorted order had been computed, every later request runs from the same state.
\<close>

theorem setters_clear_memo:
  "memo_cleared (SetTopElement elem s) \<and>
   memo_cleared (SetWorkingDirectory strpath s) \<and>
   memo_cleared (SetWorkingPath path s) \<and>
   SetTopElement elem
     (s\<lparr>fLastPath := lp, fLastElement := le, fLastItems := li, fLastSortedItems := ls,
        fLastSortMethod := lm, fLastAllChilds := la\<rparr>) = SetTopElement elem s \<and>
   SetWorkingDirectory strpath
     (s\<lparr>fLastPath := lp, fLastElement := le, fLastItems := li, fLastSortedItems := ls,
        fLastSortMethod := lm, fLastAllChilds := la\<rparr>) = SetWorkingDirectory strpath s \<and>
   SetWorkingPath path
     (s\<lparr>fLastPath := lp, fLastElement := le, fLastItems := li, fLastSortedItems := ls,
        fLastSortMethod := lm, fLastAllChilds := la\<rparr>) = SetWorkingPath path s"
  by (simp add: memo_cleared_def SetTopElement_def SetWorkingDirectory_def SetWorkingPath_def
      ResetLastRequest_def DecomposePath_def)

theorem setters_clear_memo_witness:
  "fLastItems (fst (snd (ProcessBrowserRequest sample_externals (sample_request ''src'') empty_reply
      sample_state))) = [RItem ''lib'' True False, RItem ''util'' False False] \<and>
   memo_cleared (SetWorkingPath [''src'']
     (fst (snd (ProcessBrowserRequest sample_externals (sample_request ''src'') empty_reply sample_state))))"
proof -
  have "fLastItems (fst (snd (ProcessBrowserRequest sample_externals (sample_request ''src'') empty_reply
      sample_state))) = [RItem ''lib'' True False, RItem ''util'' False False]" by code_simp
  with setters_clear_memo [of None
      "fst (snd (ProcessBrowserRequest sample_externals (sample_request ''src'') empty_reply sample_state))"
      "[]" "[''src'']"]
  show ?thesis by blast
qed

section \<open>Remarks\<close>

text \<open>
  The order of the scan matters for C1. The scan keeps the first entry with the longest
  match, whether or not the key of that entry is a prefix of the path. In the \<^verbatim>\<open>std::map\<close> order a prefix comes before its extensions, and the
  entry kept is a prefix of the path. Were the entries visited in descending order, the
  entry of \<open>src/lib\<close> would be kept for the path \<open>src/util\<close> and the lookup of \<open>util\<close>
  would continue under \<open>lib\<close>.
\<close>

lemma scan_order_matters:
  "fst (GetSubElement [''src'', ''util'']
         (sample_state\<lparr>fCache := [([''src''], sample_src), ([''src'', ''lib''], sample_lib)]\<rparr>)) =
     Inr (Some (RElement None)) \<and>
   fst (GetSubElement [''src'', ''util'']
         (sample_state\<lparr>fCache := [([''src'', ''lib''], sample_lib), ([''src''], sample_src)]\<rparr>)) =
     Inr (Some (RElement (Some [])))"
  by code_simp

text \<open>
  The raw snapshot is bounded by 10 002 items, not 10 000, and the completeness flag is
  false exactly when the iterator yields at least 10 002 children (also when it yields
  exactly 10 002, all of which are listed).
\<close>

lemma listing_cap:
  "length (fst (collect_items iter [] 0 True)) = min (length iter) 10002 \<and>
   snd (collect_items iter [] 0 True) = (length iter < 10002)"
  by (simp add: collect_items_fresh min.commute)

text \<open>
  Where the sum \<^verbatim>\<open>request.first + request.number\<close> is in range (or \<open>number\<close> is 0) and
  the regex is valid, the filtering loop returns a page.
\<close>

lemma page_returned:
  assumes "fst (locate_element (DecomposePath (req_path request) True s) s) = Inr True"
    and "fst (list_childs (after_locate request s)) = Inr True"
    and "regex_valid ext (req_regex request)"
    and "req_number request = 0 \<or> sum_in_range request"
  shows "fst (ProcessBrowserRequest ext request reply s) = Inr True"
  using assms by (simp add: ProcessBrowserRequest_eq fill_reply_returns)

end
